theory Spec2Isabelle
  imports Complex_Main "HOL-Library.Word" "HOL-Library.Signed_Division"
begin

unbundle bit_operations_syntax

section \<open>The Bloom filter of src/index.ts\<close>

text \<open>
  The class \<^verbatim>\<open>BloomFilter\<close> has the fields \<^verbatim>\<open>bits\<close>, \<^verbatim>\<open>k\<close>, \<^verbatim>\<open>filter\<close> and
  \<^verbatim>\<open>popcnt\<close>. The last one is the population count of the external package bound to
  \<^verbatim>\<open>bits\<close> by the constructor; it is determined by \<^verbatim>\<open>bits\<close> and is not a field of the
  record. \<^verbatim>\<open>bits\<close> and \<^verbatim>\<open>k\<close> are JavaScript numbers holding integers (a number that is
  not an integer makes \<^verbatim>\<open>BigInt(bits)\<close> throw and is outside this model); \<^verbatim>\<open>filter\<close> is
  a bigint, an unbounded integer whose bitwise operations are those of \<^typ>\<open>int\<close>.
\<close>

record BloomFilter =
  bits :: int
  k :: int
  filter' :: int

datatype error =
  RangeError      \<comment> \<open>bigint division by zero\<close>
  | SyntaxError   \<comment> \<open>\<^verbatim>\<open>BigInt\<close> of a string that is not a number\<close>
  | ParameterMismatch  \<comment> \<open>the \<^verbatim>\<open>Error\<close> thrown by \<^verbatim>\<open>union\<close>\<close>

datatype FilterComparison =
  Incompatible | None' | Equal | Larger | Smaller | Inequal

text \<open>The numeric values of the enumeration.\<close>

fun FilterComparison_value :: "FilterComparison \<Rightarrow> int" where
  "FilterComparison_value Incompatible = - 255"
| "FilterComparison_value None' = - 1"
| "FilterComparison_value Equal = 0"
| "FilterComparison_value Larger = 1"
| "FilterComparison_value Smaller = 2"
| "FilterComparison_value Inequal = 3"

text \<open>\<^verbatim>\<open>new BloomFilter(bits, k)\<close>: the filter starts as \<^verbatim>\<open>0n\<close>.\<close>

definition new_BloomFilter :: "int \<Rightarrow> int \<Rightarrow> BloomFilter" where
  "new_BloomFilter b n = \<lparr>bits = b, k = n, filter' = 0\<rparr>"

subsection \<open>Hashing an item\<close>

definition mask64 :: int where
  "mask64 = push_bit 64 1 - 1"

text \<open>
  \<^verbatim>\<open>Rotl64\<close> works on bigints and does not cut its result to 64 bits. A bigint shift by
  a negative count shifts the other way.
\<close>

definition shl :: "int \<Rightarrow> int \<Rightarrow> int" where
  "shl a n = (if 0 \<le> n then push_bit (nat n) a else drop_bit (nat (- n)) a)"

definition shr :: "int \<Rightarrow> int \<Rightarrow> int" where
  "shr a n = (if 0 \<le> n then drop_bit (nat n) a else push_bit (nat (- n)) a)"

definition Rotl64 :: "int \<Rightarrow> int \<Rightarrow> int" where
  "Rotl64 a n = shl a n OR shr a (64 - n)"

text \<open>
  The loop of \<^verbatim>\<open>itemHash\<close>, with its variables \<^verbatim>\<open>i\<close>, \<^verbatim>\<open>delta\<close>, \<^verbatim>\<open>a\<close> and \<^verbatim>\<open>o\<close>
  (here \<open>out\<close>).
  The bigint remainder \<^verbatim>\<open>%\<close> truncates towards zero (\<open>smod\<close>) and throws a RangeError
  when the divisor is zero.
\<close>

function itemHash_loop :: "int \<Rightarrow> int \<Rightarrow> int \<Rightarrow> int \<Rightarrow> int \<Rightarrow> int \<Rightarrow> error + int" where
  "itemHash_loop m n i delta a out =
     (if i < n then
        (let delta' = delta + i in
         if m = 0 then Inl RangeError
         else
           (let bit' = a smod m;
                out' = out OR shl 1 bit';
                a' = (a + delta') AND mask64
            in itemHash_loop m n (i + 1) delta' a' out'))
      else Inr out)"
  by pat_completeness auto
termination
  by (relation "measure (\<lambda>(m, n, i, delta, a, out). nat (n - i))") auto

declare itemHash_loop.simps [simp del]

text \<open>
  \<^verbatim>\<open>itemHash(v, bits, k)\<close>. The hash of the external package, \<^verbatim>\<open>XXH64(buf, 0n)\<close> applied to
  the bytes of the item, is the parameter \<open>Hash64\<close>; it returns a bigint.
\<close>

definition itemHash :: "('v \<Rightarrow> int) \<Rightarrow> 'v \<Rightarrow> int \<Rightarrow> int \<Rightarrow> error + int" where
  "itemHash Hash64 v b n =
     (let out = 0;
          m = b;
          a = Hash64 v;
          a = (if a < 0 then a * (- 1) else a);
          a = a XOR 0x6740bca37be0516d;
          delta = Rotl64 a 17 OR 1
      in itemHash_loop m n 0 delta a out)"

subsection \<open>Operations of the filter\<close>

text \<open>
  The filter a method is called on (\<^verbatim>\<open>this\<close>) is the argument \<open>F\<close>, before the
  arguments of the call. A method that changes the filter returns the outcome together with
  the filter after the call, so that the state after a throw is part of the model.
\<close>

definition add :: "('v \<Rightarrow> int) \<Rightarrow> BloomFilter \<Rightarrow> 'v \<Rightarrow> (error + unit) \<times> BloomFilter" where
  "add Hash64 F v =
     (case itemHash Hash64 v (bits F) (k F) of
        Inl e \<Rightarrow> (Inl e, F)
      | Inr l \<Rightarrow> (Inr (), F\<lparr>filter' := filter' F OR l\<rparr>))"

definition test :: "('v \<Rightarrow> int) \<Rightarrow> BloomFilter \<Rightarrow> 'v \<Rightarrow> error + bool" where
  "test Hash64 F v =
     (case itemHash Hash64 v (bits F) (k F) of
        Inl e \<Rightarrow> Inl e
      | Inr l \<Rightarrow> Inr ((filter' F AND l) = l))"

definition union' :: "BloomFilter \<Rightarrow> BloomFilter \<Rightarrow> (error + unit) \<times> BloomFilter" where
  "union' F bloom =
     (if k bloom \<noteq> k F \<or> bits bloom \<noteq> bits F then (Inl ParameterMismatch, F)
      else (Inr (), F\<lparr>filter' := filter' F OR filter' bloom\<rparr>))"

text \<open>A sequence of calls on one filter; it stops at the first call that throws.\<close>

datatype 'v operation = Add 'v | Union BloomFilter

fun perform :: "('v \<Rightarrow> int) \<Rightarrow> BloomFilter \<Rightarrow> 'v operation \<Rightarrow> (error + unit) \<times> BloomFilter" where
  "perform Hash64 F (Add v) = add Hash64 F v"
| "perform Hash64 F (Union bloom) = union' F bloom"

fun perform_all :: "('v \<Rightarrow> int) \<Rightarrow> BloomFilter \<Rightarrow> 'v operation list \<Rightarrow> (error + unit) \<times> BloomFilter" where
  "perform_all Hash64 F [] = (Inr (), F)"
| "perform_all Hash64 F (x # xs) =
     (case perform Hash64 F x of
        (Inl e, F') \<Rightarrow> (Inl e, F')
      | (Inr u, F') \<Rightarrow> perform_all Hash64 F' xs)"

text \<open>
  The number of set bits of a natural number. The filter's own \<^verbatim>\<open>popcnt\<close> comes from the
  external package \<^verbatim>\<open>bigint-popcnt\<close>.
\<close>

fun popcount :: "nat \<Rightarrow> nat" where
  "popcount n = (if n = 0 then 0 else n mod 2 + popcount (n div 2))"

declare popcount.simps [simp del]

text \<open>
  Modelled from the spec: the population count \<^verbatim>\<open>fastpopcnt(BigInt(bits))\<close> of the external
  package, which the spec describes as \<^verbatim>\<open>PopCount(value, width) -> integer\<close>, counting
  the set bits correctly for any width up to the filter's \<^verbatim>\<open>bits\<close>.
\<close>

definition fastpopcnt :: "int \<Rightarrow> int \<Rightarrow> int" where
  "fastpopcnt width v = int (popcount (nat v))"

text \<open>
  A stand-in for the external hash, used only in the closed examples: the theorems hold for
  every hash function.
\<close>

definition sample_hash :: "string \<Rightarrow> int" where
  "sample_hash v =
     foldl (\<lambda>h c. (h * 1099511628211 + int (of_char c)) mod 2 ^ 64) 14695981039346656037 v"

subsection \<open>The double hashing scheme as the specification words it\<close>

text \<open>
  Section 4.1 of the specification works on unsigned 64-bit values. Steps 2 to 5, from the
  value \<open>a\<close> that step 1 gives: \<open>a\<close> is XORed with the constant; \<open>delta\<close> is the rotation to
  the left by 17 with the lowest bit set; step \<open>i\<close> adds \<open>i\<close> to \<open>delta\<close>, records
  \<open>a mod bits\<close> and adds \<open>delta\<close> to \<open>a\<close>, wrapping at 64 bits. The recorded indices are
  combined into a bitmask.
\<close>

fun Indices_steps :: "nat \<Rightarrow> nat \<Rightarrow> nat \<Rightarrow> 64 word \<Rightarrow> 64 word \<Rightarrow> nat list" where
  "Indices_steps m 0 i delta a = []"
| "Indices_steps m (Suc j) i delta a =
     (let delta' = delta + of_nat i;
          bit' = unat a mod m
      in bit' # Indices_steps m j (Suc i) delta' (a + delta'))"

definition Indices_from :: "64 word \<Rightarrow> nat \<Rightarrow> nat \<Rightarrow> nat list" where
  "Indices_from a m n =
     (let a = a XOR 0x6740BCA37BE0516D;
          delta = word_rotl 17 a OR 1
      in Indices_steps m n 0 delta a)"

text \<open>
  Step 1: the hash is a 64-bit value; it is negated if it is negative when interpreted as
  signed, and then interpreted as an unsigned 64-bit value. The signed reading of a word
  is \<open>sint\<close>.
\<close>

definition Indices :: "('v \<Rightarrow> int) \<Rightarrow> 'v \<Rightarrow> nat \<Rightarrow> nat \<Rightarrow> nat list" where
  "Indices Hash64 v m n =
     (let h = (word_of_int (Hash64 v) :: 64 word);
          a = (if sint h < 0 then - h else h)
      in Indices_from a m n)"

definition bitmask :: "nat list \<Rightarrow> int" where
  "bitmask bs = fold (\<lambda>b mask. mask OR push_bit b 1) bs 0"

subsection \<open>Serialization\<close>

text \<open>
  A \<^verbatim>\<open>Buffer\<close> is a list of bytes. \<^verbatim>\<open>toBufferLE\<close> and \<^verbatim>\<open>toBigIntLE\<close> go through the
  hexadecimal text of the number, as the source does: \<^verbatim>\<open>num.toString(16)\<close>,
  \<^verbatim>\<open>padStart\<close>, \<^verbatim>\<open>slice(0, end)\<close>, \<^verbatim>\<open>Buffer.from(hex, 'hex')\<close> (which stops at the first
  pair that is not hexadecimal and drops a last single character),
  \<^verbatim>\<open>buf.toString('hex')\<close> and \<^verbatim>\<open>BigInt('0x...')\<close>.
\<close>

type_synonym Buffer = "8 word list"

text \<open>The digit of a value below 16, and the value of a digit of either case.\<close>

definition hexdigit :: "nat \<Rightarrow> char" where
  "hexdigit d = ''0123456789abcdef'' ! d"

definition hexval :: "char \<Rightarrow> nat option" where
  "hexval c =
     (let n = (of_char c :: nat) in
      if 48 \<le> n \<and> n \<le> 57 then Some (n - 48)
      else if 97 \<le> n \<and> n \<le> 102 then Some (n - 87)
      else if 65 \<le> n \<and> n \<le> 70 then Some (n - 55)
      else None)"

text \<open>\<^verbatim>\<open>num.toString(16)\<close>: no leading zeros, \<^verbatim>\<open>0\<close> for zero, a minus sign before the digits
  of a negative number.\<close>

fun hexdigits :: "nat \<Rightarrow> string" where
  "hexdigits n = (if n < 16 then [hexdigit n] else hexdigits (n div 16) @ [hexdigit (n mod 16)])"

declare hexdigits.simps [simp del]

definition toString16 :: "int \<Rightarrow> string" where
  "toString16 n = (if n < 0 then CHR ''-'' # hexdigits (nat (- n)) else hexdigits (nat n))"

text \<open>
  \<^verbatim>\<open>s.padStart(targetLength, c)\<close> leaves a string that is long enough as it is;
  \<^verbatim>\<open>s.slice(0, e)\<close> counts a negative \<open>e\<close> from the end.
\<close>

definition padStart :: "string \<Rightarrow> int \<Rightarrow> char \<Rightarrow> string" where
  "padStart s targetLength c =
     (if targetLength \<le> int (length s) then s
      else replicate (nat targetLength - length s) c @ s)"

definition slice0 :: "'a list \<Rightarrow> int \<Rightarrow> 'a list" where
  "slice0 s e = (if e < 0 then take (nat (int (length s) + e)) s else take (nat e) s)"

text \<open>\<^verbatim>\<open>Buffer.from(s, 'hex')\<close> and \<^verbatim>\<open>buf.toString('hex')\<close>.\<close>

fun Buffer_from_hex :: "string \<Rightarrow> Buffer" where
  "Buffer_from_hex (c1 # c2 # cs) =
     (case (hexval c1, hexval c2) of
        (Some h, Some l) \<Rightarrow> of_nat (16 * h + l) # Buffer_from_hex cs
      | _ \<Rightarrow> [])"
| "Buffer_from_hex _ = []"

definition Buffer_toString_hex :: "Buffer \<Rightarrow> string" where
  "Buffer_toString_hex buf =
     concat (map (\<lambda>b. [hexdigit (unat b div 16), hexdigit (unat b mod 16)]) buf)"

text \<open>\<^verbatim>\<open>BigInt(`0x${hex}`)\<close>: a SyntaxError when there is no digit or a character is not one.\<close>

fun parse_hex :: "int \<Rightarrow> string \<Rightarrow> int option" where
  "parse_hex acc [] = Some acc"
| "parse_hex acc (c # cs) =
     (case hexval c of None \<Rightarrow> None | Some d \<Rightarrow> parse_hex (16 * acc + int d) cs)"

definition BigInt_0x :: "string \<Rightarrow> error + int" where
  "BigInt_0x hex =
     (if hex = [] then Inl SyntaxError
      else case parse_hex 0 hex of None \<Rightarrow> Inl SyntaxError | Some n \<Rightarrow> Inr n)"

text \<open>The two conversions of the source.\<close>

definition toBufferLE :: "int \<Rightarrow> int \<Rightarrow> Buffer" where
  "toBufferLE num width =
     (let hex = toString16 num;
          buffer = Buffer_from_hex (slice0 (padStart hex (width * 2) CHR ''0'') (width * 2))
      in rev buffer)"

definition toBigIntLE :: "Buffer \<Rightarrow> error + int" where
  "toBigIntLE buf =
     (let reversed = rev buf;
          hex = Buffer_toString_hex reversed
      in if length hex = 0 then Inr 0 else BigInt_0x hex)"

text \<open>
  \<^verbatim>\<open>fromBuffer\<close> takes \<^verbatim>\<open>k\<close> from the first two bytes, the filter from the rest and
  \<^verbatim>\<open>bits\<close> from the length. \<^verbatim>\<open>toBuffer\<close> writes \<^verbatim>\<open>k\<close> on two bytes and the filter on
  \<^verbatim>\<open>Math.ceil(bits / 8)\<close> bytes.
\<close>

definition fromBuffer :: "Buffer \<Rightarrow> error + BloomFilter" where
  "fromBuffer buf =
     (case toBigIntLE (take 2 buf) of
        Inl e \<Rightarrow> Inl e
      | Inr k' \<Rightarrow>
          (case toBigIntLE (drop 2 buf) of
             Inl e \<Rightarrow> Inl e
           | Inr ofilter' \<Rightarrow>
               Inr ((new_BloomFilter ((int (length buf) - 2) * 8) k')\<lparr>filter' := ofilter'\<rparr>)))"

definition toBuffer :: "BloomFilter \<Rightarrow> Buffer" where
  "toBuffer F = toBufferLE (k F) 2 @ toBufferLE (filter' F) (- ((- bits F) div 8))"

text \<open>The characters that \<open>hexdigit\<close> produces.\<close>

definition lowerhex :: "char \<Rightarrow> bool" where
  "lowerhex c = (\<exists>d<16. c = hexdigit d)"

subsection \<open>Numbers\<close>

text \<open>
  The value of a JavaScript number: not a number, an infinity, or a real (each finite
  double is one; both zeros are \<open>Fin 0\<close>, and they compare equal). The comparisons \<^verbatim>\<open><\<close>,
  \<^verbatim>\<open>>\<close> and \<^verbatim>\<open>===\<close> are those of IEEE 754: every comparison with NaN is false.
\<close>

datatype number = NaN | NegInf | Fin real | PosInf

fun nlt :: "number \<Rightarrow> number \<Rightarrow> bool" where
  "nlt NaN b = False"
| "nlt a NaN = False"
| "nlt NegInf NegInf = False"
| "nlt NegInf b = True"
| "nlt (Fin x) NegInf = False"
| "nlt (Fin x) (Fin y) = (x < y)"
| "nlt (Fin x) PosInf = True"
| "nlt PosInf b = False"

definition ngt :: "number \<Rightarrow> number \<Rightarrow> bool" where
  "ngt a b = nlt b a"

fun neq :: "number \<Rightarrow> number \<Rightarrow> bool" where
  "neq NaN b = False"
| "neq a NaN = False"
| "neq a b = (a = b)"

text \<open>
  The number of an integer: the fields \<^verbatim>\<open>bits\<close> and \<^verbatim>\<open>k\<close>, the loop counter of
  \<^verbatim>\<open>OptimalParameters\<close> and \<^verbatim>\<open>Number(popcnt(filter))\<close>. It is exact up to \<open>2 ^ 53\<close>.
\<close>

definition num :: "int \<Rightarrow> number" where
  "num i = Fin (of_int i)"

text \<open>
  The operations that round, and the functions of \<^verbatim>\<open>Math\<close>, are parameters of the model:
  unary minus, \<^verbatim>\<open>-\<close>, \<^verbatim>\<open>*\<close>, \<^verbatim>\<open>/\<close>, \<^verbatim>\<open>Math.log\<close> and \<^verbatim>\<open>Math.pow\<close> (also written \<^verbatim>\<open>**\<close>).
  What is proved of \<^verbatim>\<open>compare\<close> and \<^verbatim>\<open>OptimalParameters\<close> holds however they round.
\<close>

record float_ops =
  fneg :: "number \<Rightarrow> number"
  fsub :: "number \<Rightarrow> number \<Rightarrow> number"
  fmul :: "number \<Rightarrow> number \<Rightarrow> number"
  fdiv :: "number \<Rightarrow> number \<Rightarrow> number"
  Math_log :: "number \<Rightarrow> number"
  Math_pow :: "number \<Rightarrow> number \<Rightarrow> number"

subsection \<open>Estimated size and comparison\<close>

text \<open>\<^verbatim>\<open>size()\<close>: \<^verbatim>\<open>- (bits / k) * Math.log(1 - (Number(popcnt(filter)) / bits))\<close>.\<close>

definition size' :: "float_ops \<Rightarrow> BloomFilter \<Rightarrow> number" where
  "size' fl F =
     fmul fl (fneg fl (fdiv fl (num (bits F)) (num (k F))))
       (Math_log fl (fsub fl (num 1)
          (fdiv fl (num (fastpopcnt (bits F) (filter' F))) (num (bits F)))))"

text \<open>\<^verbatim>\<open>F.compare(bloom)\<close>.\<close>

definition compare :: "float_ops \<Rightarrow> BloomFilter \<Rightarrow> BloomFilter \<Rightarrow> FilterComparison" where
  "compare fl F bloom =
     (if k bloom \<noteq> k F \<or> bits bloom \<noteq> bits F then Incompatible
      else if filter' F = filter' bloom then Equal
      else
        (let lsize = size' fl F;
             rsize = size' fl bloom
         in if ngt lsize rsize then Larger
            else if nlt lsize rsize then Smaller
            else Inequal))"

subsection \<open>Optimal parameters\<close>









subsection \<open>Arithmetic that preserves order\<close>

text \<open>
  What the comparison of a filter with one holding more items needs of the operations:
  each is monotone where \<^verbatim>\<open>size\<close> uses it, as a correctly rounded operation and a
  monotone logarithm are. A NaN result is allowed everywhere, since it compares false.
\<close>

definition monotone_ops :: "float_ops \<Rightarrow> bool" where
  "monotone_ops fl \<longleftrightarrow>
     (\<forall>a b d. nlt (num 0) d \<longrightarrow> \<not> nlt a b \<longrightarrow> \<not> nlt (fdiv fl a d) (fdiv fl b d))
   \<and> (\<forall>a b c. \<not> nlt a b \<longrightarrow> \<not> nlt (fsub fl c b) (fsub fl c a))
   \<and> (\<forall>a b. \<not> nlt a b \<longrightarrow> \<not> nlt (Math_log fl a) (Math_log fl b))
   \<and> (\<forall>a b c. \<not> nlt (num 0) c \<longrightarrow> \<not> nlt a b \<longrightarrow> \<not> nlt (fmul fl c b) (fmul fl c a))
   \<and> (\<forall>a d. nlt (num 0) a \<longrightarrow> nlt (num 0) d \<longrightarrow> \<not> nlt (fdiv fl a d) (num 0))
   \<and> (\<forall>a. \<not> nlt a (num 0) \<longrightarrow> \<not> nlt (num 0) (fneg fl a))"

text \<open>
  The operations without rounding, for the closed examples. The power is only that of a
  positive finite base.
\<close>

fun exact_neg :: "number \<Rightarrow> number" where
  "exact_neg NaN = NaN"
| "exact_neg NegInf = PosInf"
| "exact_neg (Fin x) = Fin (- x)"
| "exact_neg PosInf = NegInf"

fun exact_sub :: "number \<Rightarrow> number \<Rightarrow> number" where
  "exact_sub NaN b = NaN"
| "exact_sub a NaN = NaN"
| "exact_sub (Fin x) (Fin y) = Fin (x - y)"
| "exact_sub (Fin x) PosInf = NegInf"
| "exact_sub (Fin x) NegInf = PosInf"
| "exact_sub PosInf PosInf = NaN"
| "exact_sub PosInf b = PosInf"
| "exact_sub NegInf NegInf = NaN"
| "exact_sub NegInf b = NegInf"

definition signed_inf :: "real \<Rightarrow> number" where
  "signed_inf s = (if s = 0 then NaN else if 0 < s then PosInf else NegInf)"

fun exact_mul :: "number \<Rightarrow> number \<Rightarrow> number" where
  "exact_mul NaN b = NaN"
| "exact_mul a NaN = NaN"
| "exact_mul (Fin x) (Fin y) = Fin (x * y)"
| "exact_mul (Fin x) PosInf = signed_inf x"
| "exact_mul (Fin x) NegInf = signed_inf (- x)"
| "exact_mul PosInf (Fin y) = signed_inf y"
| "exact_mul NegInf (Fin y) = signed_inf (- y)"
| "exact_mul PosInf PosInf = PosInf"
| "exact_mul PosInf NegInf = NegInf"
| "exact_mul NegInf PosInf = NegInf"
| "exact_mul NegInf NegInf = PosInf"

fun exact_div :: "number \<Rightarrow> number \<Rightarrow> number" where
  "exact_div NaN b = NaN"
| "exact_div a NaN = NaN"
| "exact_div (Fin x) (Fin y) = (if y = 0 then signed_inf x else Fin (x / y))"
| "exact_div (Fin x) b = Fin 0"
| "exact_div PosInf (Fin y) = (if 0 \<le> y then PosInf else NegInf)"
| "exact_div NegInf (Fin y) = (if 0 \<le> y then NegInf else PosInf)"
| "exact_div a b = NaN"

fun exact_log :: "number \<Rightarrow> number" where
  "exact_log NaN = NaN"
| "exact_log NegInf = NaN"
| "exact_log (Fin x) = (if x < 0 then NaN else if x = 0 then NegInf else Fin (ln x))"
| "exact_log PosInf = PosInf"

fun exact_pow :: "number \<Rightarrow> number \<Rightarrow> number" where
  "exact_pow (Fin x) (Fin y) = (if 0 < x then Fin (x powr y) else NaN)"
| "exact_pow a b = NaN"

definition exact_ops :: float_ops where
  "exact_ops = \<lparr>fneg = exact_neg, fsub = exact_sub, fmul = exact_mul, fdiv = exact_div,
     Math_log = exact_log, Math_pow = exact_pow\<rparr>"


section \<open>Population count\<close>

lemma finite_bits_nat: "finite {i. bit (n::nat) i}"
proof -
  have "{i. bit n i} \<subseteq> {i. i < n}"
  proof
    fix i assume "i \<in> {i. bit n i}"
    then have "odd (n div 2 ^ i)" by (simp add: bit_iff_odd)
    then have "2 ^ i \<le> n" by (rule contrapos_pp) simp
    moreover have "i < (2::nat) ^ i" by (rule less_exp)
    ultimately have "i < n" by linarith
    then show "i \<in> {i. i < n}" by simp
  qed
  then show ?thesis by (rule finite_subset) simp
qed

lemma bits_nat_unfold:
  "{i. bit (n::nat) i} = (if odd n then {0} else {}) \<union> Suc ` {i. bit (n div 2) i}"
proof -
  have "bit n i \<longleftrightarrow> (i = 0 \<and> odd n) \<or> (\<exists>j. i = Suc j \<and> bit (n div 2) j)" for i
    by (cases i) (simp_all add: bit_0 bit_Suc)
  then show ?thesis by auto
qed

lemma popcount_card: "popcount n = card {i. bit n i}"
proof (induction n rule: popcount.induct)
  case (1 n)
  show ?case
  proof (cases "n = 0")
    case True
    then show ?thesis by (simp add: popcount.simps)
  next
    case False
    have fin: "finite (Suc ` {i. bit (n div 2) i})"
      by (simp add: finite_bits_nat)
    have "card {i. bit n i} = card (if odd n then {0::nat} else {}) + card (Suc ` {i. bit (n div 2) i})"
      by (subst bits_nat_unfold, rule card_Un_disjoint) (auto simp: finite_bits_nat)
    also have "card (Suc ` {i. bit (n div 2) i}) = card {i. bit (n div 2) i}"
      by (rule card_image) simp
    also have "card (if odd n then {0::nat} else {}) = n mod 2"
      by (simp add: odd_iff_mod_2_eq_one)
    finally show ?thesis
      using False 1 by (simp add: popcount.simps [of n])
  qed
qed

lemma popcount_mono: "x AND y = x \<Longrightarrow> popcount x \<le> popcount y"
proof -
  assume h: "x AND y = x"
  have "bit x i \<Longrightarrow> bit y i" for i
    using h by (metis bit_and_iff)
  then have "{i. bit x i} \<subseteq> {i. bit y i}" by auto
  then show ?thesis
    unfolding popcount_card by (rule card_mono [OF finite_bits_nat])
qed

lemma popcount_or_bit: "popcount (x OR push_bit b 1) \<le> popcount x + 1"
proof -
  have "{i. bit (x OR push_bit b 1) i} = insert b {i. bit x i}"
    by (auto simp: bit_or_iff bit_exp_iff)
  then show ?thesis
    unfolding popcount_card by (simp add: card_insert_if finite_bits_nat)
qed

lemma popcount_pos: "x \<noteq> 0 \<Longrightarrow> 1 \<le> popcount x"
proof -
  assume "x \<noteq> 0"
  then obtain i where "bit x i" by (auto simp: bit_eq_iff)
  then have "{i. bit x i} \<noteq> {}" by auto
  then have "card {i. bit x i} \<noteq> 0" by (simp add: finite_bits_nat)
  then show ?thesis unfolding popcount_card by simp
qed

section \<open>Values at sample inputs\<close>

lemmas itemHash_eval =
  itemHash_def itemHash_loop.simps Rotl64_def shl_def shr_def mask64_def Let_def

lemma sample_hash_values:
  "sample_hash ''alpha'' = 3149259703870807917"
  "sample_hash ''beta'' = 11483684825756464661"
  "sample_hash ''gamma'' = 10106637445856344190"
  by (simp_all add: sample_hash_def)

lemma itemHash_sample_64_4:
  "itemHash sample_hash ''alpha'' 64 4 = Inr 9223374235878555649"
  "itemHash sample_hash ''beta'' 64 4 = Inr 83316593106354176"
  "itemHash sample_hash ''gamma'' 64 4 = Inr 4366794752"
  by (simp_all add: sample_hash_values itemHash_eval)

lemma itemHash_sample_8_3: "itemHash sample_hash ''alpha'' 8 3 = Inr 11"
  by (simp add: sample_hash_values itemHash_eval)

lemma perform_all_sample:
  "perform_all sample_hash (new_BloomFilter 64 4)
     [Add ''alpha'', Add ''beta'', Union \<lparr>bits = 64, k = 4, filter' = 5\<rparr>]
   = (Inr (), \<lparr>bits = 64, k = 4, filter' = 9306690828984909829\<rparr>)"
  by (simp add: new_BloomFilter_def add_def union'_def itemHash_sample_64_4)

lemma popcount_values:
  "popcount 0 = 0" "popcount 5 = 2" "popcount 11 = 3"
  "popcount 9306690828984909829 = 8"
  by (simp_all add: popcount.simps)

section \<open>The loop of itemHash\<close>

lemma shl_1_nonneg: "0 \<le> shl 1 b"
  by (simp add: shl_def)

lemma mask64_nonneg: "0 \<le> x AND mask64"
  by (simp add: mask64_def)

lemma itemHash_loop_total:
  "m \<noteq> 0 \<Longrightarrow> \<exists>r. itemHash_loop m n i delta a out = Inr r"
proof (induction m n i delta a out rule: itemHash_loop.induct)
  case (1 m n i delta a out)
  show ?case
  proof (cases "i < n")
    case True
    with 1 show ?thesis
      by (subst itemHash_loop.simps) (simp add: Let_def)
  next
    case False
    then show ?thesis by (subst itemHash_loop.simps) simp
  qed
qed

lemma itemHash_loop_grows:
  "itemHash_loop m n i delta a out = Inr r \<Longrightarrow> 0 \<le> out \<Longrightarrow> 0 \<le> r \<and> out AND r = out"
proof (induction m n i delta a out rule: itemHash_loop.induct)
  case (1 m n i delta a out)
  show ?case
  proof (cases "i < n")
    case True
    from "1.prems"(1) True have m: "m \<noteq> 0"
      by (subst (asm) itemHash_loop.simps) (auto simp: Let_def split: if_splits)
    define out' where "out' = out OR shl 1 (a smod m)"
    have rec: "itemHash_loop m n (i + 1) (delta + i) ((a + (delta + i)) AND mask64) out' = Inr r"
      using "1.prems"(1) True m
      by (subst (asm) itemHash_loop.simps) (simp add: Let_def out'_def)
    have "0 \<le> out'" using "1.prems"(2) by (simp add: out'_def shl_1_nonneg)
    with "1.IH" [OF True refl m refl refl refl] rec
    have r: "0 \<le> r" "out' AND r = out'" by (simp_all add: out'_def)
    have "out AND r = out"
    proof (rule bit_eqI)
      fix j
      have "bit out' j \<longrightarrow> bit r j" using r(2) by (metis bit_and_iff)
      then show "bit (out AND r) j = bit out j"
        by (auto simp: bit_and_iff out'_def bit_or_iff)
    qed
    with r show ?thesis by simp
  next
    case False
    with "1.prems" show ?thesis
      by (subst (asm) itemHash_loop.simps) auto
  qed
qed

lemma itemHash_loop_bound:
  "itemHash_loop m n i delta a out = Inr r \<Longrightarrow> 1 \<le> m \<Longrightarrow> 0 \<le> a \<Longrightarrow> 0 \<le> out \<Longrightarrow>
   out < 2 ^ nat m \<Longrightarrow>
   r < 2 ^ nat m \<and> popcount (nat r) \<le> popcount (nat out) + nat (n - i)"
proof (induction m n i delta a out rule: itemHash_loop.induct)
  case (1 m n i delta a out)
  show ?case
  proof (cases "i < n")
    case True
    have m: "m \<noteq> 0" using "1.prems" by simp
    define b where "b = a smod m"
    define out' where "out' = out OR shl 1 b"
    define a' where "a' = (a + (delta + i)) AND mask64"
    have rec: "itemHash_loop m n (i + 1) (delta + i) a' out' = Inr r"
      using "1.prems"(1) True m
      by (subst (asm) itemHash_loop.simps) (simp add: Let_def out'_def a'_def b_def)
    have b: "0 \<le> b" "b < m"
      using "1.prems"(2,3) by (simp_all add: b_def smod_mod_positive)
    have sh: "shl 1 b = push_bit (nat b) 1" using b by (simp add: shl_def)
    have "(2::int) ^ nat b < 2 ^ nat m" using b by simp
    then have lt: "out' < 2 ^ nat m"
      unfolding out'_def sh using "1.prems"(4,5) by (intro OR_upper) simp_all
    have ge: "0 \<le> out'" using "1.prems"(4) by (simp add: out'_def sh)
    have a': "0 \<le> a'" unfolding a'_def by (rule mask64_nonneg)
    have "nat out' = nat out OR push_bit (nat b) 1"
      using "1.prems"(4) by (simp add: out'_def sh or_nat_def push_bit_nat_eq)
    then have pc: "popcount (nat out') \<le> popcount (nat out) + 1"
      using popcount_or_bit [of "nat out" "nat b"] by simp
    from "1.IH" [OF True refl m refl refl refl, folded b_def, folded out'_def a'_def, OF rec "1.prems"(2) a' ge lt]
    have "r < 2 ^ nat m" "popcount (nat r) \<le> popcount (nat out') + nat (n - (i + 1))"
      by simp_all
    with pc True show ?thesis by simp
  next
    case False
    with "1.prems" show ?thesis
      by (subst (asm) itemHash_loop.simps) auto
  qed
qed

lemma itemHash_nonneg: "itemHash H v b n = Inr l \<Longrightarrow> 0 \<le> l"
  unfolding itemHash_def Let_def by (drule itemHash_loop_grows) simp_all

text \<open>
  C8. For \<^verbatim>\<open>bits >= 1\<close> and \<^verbatim>\<open>k >= 1\<close>, \<^verbatim>\<open>itemHash(v, bits, k)\<close> returns (it does not
  throw) a bitmask that is non-negative and below \<open>2 ^ bits\<close>, so that every set bit is at
  a position below \<^verbatim>\<open>bits\<close>, with at least one and at most \<^verbatim>\<open>k\<close> set bits: steps that hit
  the same index leave that bit set once.
\<close>

theorem itemHash_range:
  assumes "1 \<le> b" and "1 \<le> n"
  shows "\<exists>l. itemHash H v b n = Inr l \<and> 0 \<le> l \<and> l < 2 ^ nat b
           \<and> (\<forall>j. bit l j \<longrightarrow> j < nat b)
           \<and> 1 \<le> popcount (nat l) \<and> int (popcount (nat l)) \<le> n"
proof -
  define a where "a = (if H v < 0 then H v * (- 1) else H v) XOR 0x6740bca37be0516d"
  define delta where "delta = Rotl64 a 17 OR 1"
  have a: "0 \<le> a" by (simp add: a_def)
  obtain l where loop: "itemHash_loop b n 0 delta a 0 = Inr l"
    using itemHash_loop_total [of b n 0 delta a 0] assms(1) by auto
  then have l: "itemHash H v b n = Inr l"
    by (simp add: itemHash_def Let_def a_def delta_def)
  have g: "0 \<le> l" using itemHash_loop_grows [OF loop] by simp
  have bnd: "l < 2 ^ nat b" "popcount (nat l) \<le> popcount (nat 0) + nat (n - 0)"
    using itemHash_loop_bound [OF loop assms(1) a] by simp_all
  have p0: "popcount 0 = 0" by (simp add: popcount.simps)
  have upper: "int (popcount (nat l)) \<le> n" using bnd(2) assms(2) by (simp add: p0)
  have "take_bit (nat b) l = l" using g bnd(1) by (simp add: take_bit_int_eq_self)
  then have bits: "\<forall>j. bit l j \<longrightarrow> j < nat b" by (metis bit_take_bit_iff)
  define out1 where "out1 = shl 1 (a smod b)"
  have step: "itemHash_loop b n 1 (delta + 0) ((a + (delta + 0)) AND mask64) (0 OR out1) = Inr l"
    using loop assms by (subst (asm) itemHash_loop.simps) (simp add: Let_def out1_def)
  have sm: "0 \<le> a smod b" using a assms(1) by (simp add: smod_mod_positive)
  then have o1: "out1 = 2 ^ nat (a smod b)" by (simp add: out1_def shl_def)
  have "(0 OR out1) AND l = 0 OR out1"
    using itemHash_loop_grows [OF step] by (simp add: o1)
  then have "l \<noteq> 0" by (auto simp: o1)
  with g have "nat l \<noteq> 0" by simp
  then have "1 \<le> popcount (nat l)" by (rule popcount_pos)
  with l g bnd(1) bits upper show ?thesis by blast
qed

theorem itemHash_range_witness:
  "(1::int) \<le> 8 \<and> (1::int) \<le> 3
   \<and> itemHash sample_hash ''alpha'' 8 3 = Inr 11
   \<and> (0::int) \<le> 11 \<and> (11::int) < 2 ^ nat 8
   \<and> 1 \<le> popcount (nat 11) \<and> int (popcount (nat 11)) \<le> 3"
  using itemHash_range [of 8 3 sample_hash "''alpha''"]
  by (simp add: itemHash_sample_8_3)

section \<open>itemHash and the double hashing scheme\<close>

lemma word_rotl_17: "push_bit 17 w OR drop_bit 47 w = word_rotl 17 (w :: 64 word)"
proof (rule bit_word_eqI)
  fix n assume "n < LENGTH(64)"
  then have n: "n < 64" by simp
  show "bit (push_bit 17 w OR drop_bit 47 w) n = bit (word_rotl 17 w) n"
  proof (cases "17 \<le> n")
    case True
    then have m: "(n + 47) mod 64 = n - 17" using n by (simp add: mod_if)
    have "\<not> bit w (47 + n)"
      using True bit_imp_le_length [of w "47 + n"] by auto
    then show ?thesis using n True
      by (simp add: bit_or_iff bit_push_bit_iff bit_drop_bit_eq bit_word_rotl_iff m)
  next
    case False
    then have m: "(n + 47) mod 64 = 47 + n" using n by simp
    show ?thesis using n False
      by (simp add: bit_or_iff bit_push_bit_iff bit_drop_bit_eq bit_word_rotl_iff m)
  qed
qed

text \<open>
  \<^verbatim>\<open>Rotl64\<close> does not cut its result to 64 bits, but the bits above are lost when \<open>a\<close> is
  masked, so that modulo \<open>2 ^ 64\<close> it is the rotation.
\<close>

lemma word_of_Rotl64:
  assumes "0 \<le> a" "a < 2 ^ 64"
  shows "(word_of_int (Rotl64 a 17 OR 1) :: 64 word) = word_rotl 17 (word_of_int a) OR 1"
proof -
  have tb: "take_bit 64 a = a" using assms by (simp add: take_bit_int_eq_self)
  have hi: "\<not> bit a j" if "64 \<le> j" for j
    using that bit_take_bit_iff [of 64 a j] tb by simp
  have "(word_of_int ((push_bit 17 a OR drop_bit 47 a) OR 1) :: 64 word)
      = (push_bit 17 (word_of_int a) OR drop_bit 47 (word_of_int a)) OR 1"
  proof (rule bit_word_eqI)
    fix n assume "n < LENGTH(64)"
    then show "bit (word_of_int ((push_bit 17 a OR drop_bit 47 a) OR 1) :: 64 word) n
       = bit ((push_bit 17 (word_of_int a) OR drop_bit 47 (word_of_int a)) OR 1 :: 64 word) n"
      using hi [of "47 + n"]
      by (auto simp: bit_or_iff bit_push_bit_iff bit_drop_bit_eq bit_word_of_int_iff bit_1_iff)
  qed
  then show ?thesis
    by (simp add: Rotl64_def shl_def shr_def word_rotl_17)
qed

lemma mask64_take_bit: "x AND mask64 = take_bit 64 x"
  by (simp add: mask64_def take_bit_eq_mask mask_eq_exp_minus_1)

lemma mask64_range: "0 \<le> x AND mask64" "x AND mask64 < 2 ^ 64"
  unfolding mask64_take_bit by (simp, rule take_bit_int_less_exp)

lemma word_of_mask64: "(word_of_int (x AND mask64) :: 64 word) = word_of_int x"
  unfolding mask64_take_bit word_of_int_eq_iff by simp

lemma unat_word_of_int_64:
  "0 \<le> a \<Longrightarrow> a < 2 ^ 64 \<Longrightarrow> unat (word_of_int a :: 64 word) = nat a"
  by (simp add: unat_eq_nat_uint uint_word_of_int_eq take_bit_int_eq_self)

lemma Indices_steps_unfold:
  assumes "1 \<le> m" "0 \<le> a" "a < 2 ^ 64" "0 \<le> i" "i < n"
  shows "Indices_steps (nat m) (nat (n - i)) (nat i) (word_of_int delta) (word_of_int a)
       = nat (a smod m) #
         Indices_steps (nat m) (nat (n - (i + 1))) (nat (i + 1)) (word_of_int (delta + i))
           (word_of_int ((a + (delta + i)) AND mask64))"
proof -
  have sn: "nat (n - i) = Suc (nat (n - (i + 1)))" using assms(5) by simp
  have si: "Suc (nat i) = nat (i + 1)" using assms(4) by simp
  have "(of_nat (nat i) :: 64 word) = word_of_int i"
    by (rule word_of_int_nat [symmetric, OF assms(4)])
  then have wd: "(word_of_int delta + of_nat (nat i) :: 64 word) = word_of_int (delta + i)"
    by (simp only: wi_hom_add)
  have wa: "(word_of_int a + word_of_int (delta + i) :: 64 word)
      = word_of_int ((a + (delta + i)) AND mask64)"
    unfolding word_of_mask64 by simp
  have idx: "unat (word_of_int a :: 64 word) mod nat m = nat (a smod m)"
    using assms(1-3) by (simp add: unat_word_of_int_64 nat_mod_distrib smod_mod_positive)
  show ?thesis
    unfolding sn Indices_steps.simps Let_def si wd wa idx ..
qed

lemma itemHash_loop_Indices:
  assumes "1 \<le> m" "0 \<le> a" "a < 2 ^ 64" "0 \<le> i"
  shows "itemHash_loop m n i delta a out =
         Inr (fold (\<lambda>b mask. mask OR push_bit b 1)
                (Indices_steps (nat m) (nat (n - i)) (nat i) (word_of_int delta) (word_of_int a)) out)"
  using assms
proof (induction m n i delta a out rule: itemHash_loop.induct)
  case (1 m n i delta a out)
  show ?case
  proof (cases "i < n")
    case True
    have m: "m \<noteq> 0" using "1.prems" by simp
    define a' where "a' = (a + (delta + i)) AND mask64"
    have a': "0 \<le> a'" "a' < 2 ^ 64" unfolding a'_def by (rule mask64_range)+
    have b0: "0 \<le> a smod m" using "1.prems" by (simp add: smod_mod_positive)
    have i1: "0 \<le> i + 1" using "1.prems"(4) by simp
    have "itemHash_loop m n i delta a out
        = itemHash_loop m n (i + 1) (delta + i) a' (out OR shl 1 (a smod m))"
      using True m by (subst itemHash_loop.simps) (simp add: Let_def a'_def)
    also have "\<dots> = Inr (fold (\<lambda>b mask. mask OR push_bit b 1)
                (Indices_steps (nat m) (nat (n - (i + 1))) (nat (i + 1)) (word_of_int (delta + i)) (word_of_int a'))
                (out OR shl 1 (a smod m)))"
      by (rule "1.IH" [OF True refl m refl refl refl, folded a'_def, OF "1.prems"(1) a' i1])
    also have "\<dots> = Inr (fold (\<lambda>b mask. mask OR push_bit b 1)
                (Indices_steps (nat m) (nat (n - i)) (nat i) (word_of_int delta) (word_of_int a)) out)"
      unfolding Indices_steps_unfold [OF "1.prems" True] a'_def shl_def
      using b0 by simp
    finally show ?thesis .
  next
    case False
    then show ?thesis by (subst itemHash_loop.simps) simp
  qed
qed

text \<open>
  Where step 1 of the specification and the test \<^verbatim>\<open>a < 0n\<close> of the source agree: on the
  hash values from \<open>- (2 ^ 63)\<close> up to, but not including, \<open>2 ^ 63\<close>.
\<close>

lemma sint_word_of_int_64:
  assumes "- (2 ^ 63) \<le> h" and "h < 2 ^ 63"
  shows "sint (word_of_int h :: 64 word) = h"
proof -
  have "0 \<le> h + 9223372036854775808" "h + 9223372036854775808 < 18446744073709551616"
    using assms by simp_all
  then have "(h + 9223372036854775808) mod 18446744073709551616 = h + 9223372036854775808"
    by (rule mod_pos_pos_trivial)
  then show ?thesis by (simp add: int_word_sint)
qed

lemma signed_step_1:
  assumes "- (2 ^ 63) \<le> h" and "h < 2 ^ 63"
  shows "(if sint (word_of_int h :: 64 word) < 0 then - word_of_int h else word_of_int h)
       = (word_of_int \<bar>h\<bar> :: 64 word)"
  unfolding sint_word_of_int_64 [OF assms] by (simp add: abs_if)

lemma itemHash_Indices_from:
  assumes "\<bar>H v\<bar> < 2 ^ 64" and "1 \<le> b"
  shows "itemHash H v b n = Inr (bitmask (Indices_from (word_of_int \<bar>H v\<bar>) (nat b) (nat n)))"
proof -
  define a where "a = (if H v < 0 then H v * (- 1) else H v) XOR 0x6740bca37be0516d"
  have h: "0 \<le> (if H v < 0 then H v * (- 1) else H v)" "(if H v < 0 then H v * (- 1) else H v) < 2 ^ 64"
    using assms(1) by auto
  have a0: "0 \<le> a" using h(1) by (simp add: a_def)
  have a1: "a < 2 ^ 64"
    unfolding a_def using h by (intro XOR_upper) simp_all
  have "(word_of_int (x XOR 0x6740bca37be0516d) :: 64 word) = word_of_int x XOR 0x6740BCA37BE0516D" for x
    unfolding word_wi_log_defs(4) [symmetric] by simp
  then have wa: "(word_of_int a :: 64 word) = word_of_int \<bar>H v\<bar> XOR 0x6740BCA37BE0516D"
    unfolding a_def by (cases "H v < 0") simp_all
  have "itemHash H v b n = itemHash_loop b n 0 (Rotl64 a 17 OR 1) a 0"
    by (simp add: itemHash_def Let_def a_def)
  also have "\<dots> = Inr (fold (\<lambda>b mask. mask OR push_bit b 1)
      (Indices_steps (nat b) (nat (n - 0)) (nat 0) (word_of_int (Rotl64 a 17 OR 1)) (word_of_int a)) 0)"
    by (rule itemHash_loop_Indices [OF assms(2) a0 a1]) simp
  also have "\<dots> = Inr (bitmask (Indices_from (word_of_int \<bar>H v\<bar>) (nat b) (nat n)))"
    unfolding word_of_Rotl64 [OF a0 a1] wa by (simp add: bitmask_def Indices_from_def Let_def)
  finally show ?thesis .
qed

text \<open>
  C2, as amended. For a hash value of 64 bits (of absolute value below \<open>2 ^ 64\<close>) and
  \<^verbatim>\<open>bits >= 1\<close>, \<^verbatim>\<open>itemHash(v, bits, k)\<close> returns the bitmask of the indices of steps 2 to 5
  of section 4.1, started from the absolute value of the bigint that the hash returns: the
  source negates only a negative bigint and never reads an unsigned value as signed. It is
  therefore the scheme of section 4.1, step 1 included, for the hash values from
  \<open>- (2 ^ 63)\<close> up to, but not including, \<open>2 ^ 63\<close>.
\<close>

theorem itemHash_double_hashing:
  assumes "\<bar>H v\<bar> < 2 ^ 64" and "1 \<le> b"
  shows "itemHash H v b n = Inr (bitmask (Indices_from (word_of_int \<bar>H v\<bar>) (nat b) (nat n)))
       \<and> (- (2 ^ 63) \<le> H v \<and> H v < 2 ^ 63 \<longrightarrow>
            itemHash H v b n = Inr (bitmask (Indices H v (nat b) (nat n))))"
proof (intro conjI impI)
  show c: "itemHash H v b n = Inr (bitmask (Indices_from (word_of_int \<bar>H v\<bar>) (nat b) (nat n)))"
    using assms by (rule itemHash_Indices_from)
  assume "- (2 ^ 63) \<le> H v \<and> H v < 2 ^ 63"
  then have "Indices H v (nat b) (nat n) = Indices_from (word_of_int \<bar>H v\<bar>) (nat b) (nat n)"
    by (simp add: Indices_def Let_def signed_step_1)
  with c show "itemHash H v b n = Inr (bitmask (Indices H v (nat b) (nat n)))" by simp
qed

lemma Indices_sample: "Indices sample_hash ''alpha'' 8 3 = [0, 1, 3]"
  by (simp add: Indices_def Indices_from_def Let_def sample_hash_values
      word_rotl_17 [symmetric] numeral_3_eq_3)

lemma Indices_from_sample:
  "Indices_from 3149259703870807917 8 3 = [0, 1, 3]"
  "Indices_from 14364478406410262600 8 3 = [5, 6, 0]"
  by (simp_all add: Indices_from_def Let_def word_rotl_17 [symmetric] numeral_3_eq_3)

theorem itemHash_double_hashing_witness:
  "\<bar>sample_hash ''alpha''\<bar> < 2 ^ 64 \<and> (1::int) \<le> 8
   \<and> - (2 ^ 63) \<le> sample_hash ''alpha'' \<and> sample_hash ''alpha'' < 2 ^ 63
   \<and> itemHash sample_hash ''alpha'' 8 3 = Inr 11
   \<and> Indices sample_hash ''alpha'' (nat 8) (nat 3) = [0, 1, 3]
   \<and> bitmask [0, 1, 3] = 11
   \<and> \<bar>14364478406410262600 :: int\<bar> < 2 ^ 64
   \<and> itemHash (\<lambda>v. 14364478406410262600) ''alpha'' 8 3 = Inr 97
   \<and> Indices_from 14364478406410262600 (nat 8) (nat 3) = [5, 6, 0]
   \<and> bitmask [5, 6, 0] = 97"
  using itemHash_double_hashing [of sample_hash "''alpha''" 8 3]
    itemHash_double_hashing [of "\<lambda>v. 14364478406410262600" "''alpha''" 8 3]
  by (simp add: sample_hash_values Indices_sample Indices_from_sample bitmask_def)

text \<open>
  The claim as first stated, that \<^verbatim>\<open>itemHash\<close> is the scheme of section 4.1 for every
  64-bit hash value, fails where the value has its highest bit set. The hash of the
  external package returns an unsigned value, 14364478406410262600 for \<^verbatim>\<open>alpha\<close>, which
  is negative when interpreted as signed: section 4.1 negates it, to 4082265667299289016,
  and records the indices 5, 4 and 4, the bitmask 48; the source does not negate it and
  returns the bitmask 97 of the indices 5, 6 and 0.
\<close>

theorem itemHash_double_hashing_counterexample:
  "(0::int) \<le> 14364478406410262600 \<and> (14364478406410262600::int) < 2 ^ 64
   \<and> sint (word_of_int 14364478406410262600 :: 64 word) < 0
   \<and> itemHash (\<lambda>v. 14364478406410262600) ''alpha'' 8 3 = Inr 97
   \<and> Indices (\<lambda>v. 14364478406410262600) ''alpha'' 8 3 = [5, 4, 4]
   \<and> bitmask (Indices (\<lambda>v. 14364478406410262600) ''alpha'' 8 3) = 48
   \<and> itemHash (\<lambda>v. 14364478406410262600) ''alpha'' 8 3
       \<noteq> Inr (bitmask (Indices (\<lambda>v. 14364478406410262600) ''alpha'' 8 3))"
proof -
  have s: "sint (word_of_int 14364478406410262600 :: 64 word) < 0" by simp
  have i: "Indices (\<lambda>v. 14364478406410262600) ''alpha'' 8 3 = [5, 4, 4]"
    by (simp add: Indices_def Indices_from_def Let_def word_rotl_17 [symmetric] numeral_3_eq_3)
  have c: "itemHash (\<lambda>v. 14364478406410262600) ''alpha'' 8 3 = Inr 97"
    by (simp add: itemHash_eval)
  show ?thesis unfolding i c using s by (simp add: bitmask_def)
qed

section \<open>Adding, testing and merging\<close>

lemma and_superset_trans:
  fixes s :: int
  assumes "s AND s' = s" "s' AND s'' = s'"
  shows "s AND s'' = s"
proof (rule bit_eqI)
  fix j
  have "bit s j \<longrightarrow> bit s' j" using assms(1) by (metis bit_and_iff)
  moreover have "bit s' j \<longrightarrow> bit s'' j" using assms(2) by (metis bit_and_iff)
  ultimately show "bit (s AND s'') j = bit s j" by (auto simp: bit_and_iff)
qed

lemma and_or_self: "(s::int) AND (s OR l) = s"
  by (rule bit_eqI) (auto simp: bit_and_iff bit_or_iff)

lemma or_and_self: "((s::int) OR l) AND l = l"
  by (rule bit_eqI) (auto simp: bit_and_iff bit_or_iff)

text \<open>
  C4. \<^verbatim>\<open>union(other)\<close> throws exactly when \<^verbatim>\<open>(other.bits, other.k)\<close> differs from
  \<^verbatim>\<open>(this.bits, this.k)\<close>; the filter is then unchanged; otherwise nothing is thrown and
  the filter becomes \<^verbatim>\<open>filter | other.filter\<close>, the parameters staying as they were.
\<close>

theorem union_ParameterMismatch:
  "(fst (union' F other) = Inl ParameterMismatch) = ((bits other, k other) \<noteq> (bits F, k F))
   \<and> (fst (union' F other) = Inl ParameterMismatch \<or> fst (union' F other) = Inr ())
   \<and> (fst (union' F other) = Inl ParameterMismatch \<longrightarrow> snd (union' F other) = F)
   \<and> (fst (union' F other) = Inr () \<longrightarrow>
        snd (union' F other) = F\<lparr>filter' := filter' F OR filter' other\<rparr>)"
  by (auto simp: union'_def)

theorem union_ParameterMismatch_witness:
  "fst (union' (new_BloomFilter 8 3) (new_BloomFilter 16 3)) = Inl ParameterMismatch
   \<and> snd (union' (new_BloomFilter 8 3) (new_BloomFilter 16 3)) = new_BloomFilter 8 3
   \<and> fst (union' \<lparr>bits = 8, k = 3, filter' = 2\<rparr> \<lparr>bits = 8, k = 3, filter' = 5\<rparr>) = Inr ()
   \<and> snd (union' \<lparr>bits = 8, k = 3, filter' = 2\<rparr> \<lparr>bits = 8, k = 3, filter' = 5\<rparr>)
       = \<lparr>bits = 8, k = 3, filter' = 7\<rparr>"
  using union_ParameterMismatch [of "new_BloomFilter 8 3" "new_BloomFilter 16 3"]
    union_ParameterMismatch [of "\<lparr>bits = 8, k = 3, filter' = 2\<rparr>" "\<lparr>bits = 8, k = 3, filter' = 5\<rparr>"]
  by (simp add: new_BloomFilter_def union'_def)

lemma perform_params:
  "bits (snd (perform H F x)) = bits F \<and> k (snd (perform H F x)) = k F"
  by (cases x) (auto simp: add_def union'_def split: sum.splits)

lemma perform_grows:
  "filter' F AND filter' (snd (perform H F x)) = filter' F"
  by (cases x) (auto simp: add_def union'_def and_or_self split: sum.splits)

lemma perform_nonneg:
  "0 \<le> filter' F \<Longrightarrow> (\<forall>bloom. x = Union bloom \<longrightarrow> 0 \<le> filter' bloom) \<Longrightarrow>
   0 \<le> filter' (snd (perform H F x))"
  by (cases x) (auto simp: add_def union'_def itemHash_nonneg split: sum.splits)

lemma perform_all_params:
  "bits (snd (perform_all H F xs)) = bits F \<and> k (snd (perform_all H F xs)) = k F"
proof (induction xs arbitrary: F)
  case Nil
  show ?case by simp
next
  case (Cons x xs)
  obtain r F1 where p: "perform H F x = (r, F1)" by (cases "perform H F x")
  have "bits F1 = bits F \<and> k F1 = k F" using perform_params [of H F x] p by simp
  with Cons [of F1] p show ?case by (cases r) simp_all
qed

lemma perform_all_grows:
  "filter' F AND filter' (snd (perform_all H F xs)) = filter' F"
proof (induction xs arbitrary: F)
  case Nil
  show ?case by simp
next
  case (Cons x xs)
  obtain r F1 where p: "perform H F x = (r, F1)" by (cases "perform H F x")
  have g: "filter' F AND filter' F1 = filter' F" using perform_grows [of F H x] p by simp
  show ?case
  proof (cases r)
    case (Inl e)
    with p g show ?thesis by simp
  next
    case (Inr u)
    with p have "perform_all H F (x # xs) = perform_all H F1 xs" by simp
    with and_superset_trans [OF g Cons [of F1]] show ?thesis by simp
  qed
qed

lemma perform_all_nonneg:
  "0 \<le> filter' F \<Longrightarrow> (\<forall>bloom. Union bloom \<in> set xs \<longrightarrow> 0 \<le> filter' bloom) \<Longrightarrow>
   0 \<le> filter' (snd (perform_all H F xs))"
proof (induction xs arbitrary: F)
  case Nil
  then show ?case by simp
next
  case (Cons x xs)
  obtain r F1 where p: "perform H F x = (r, F1)" by (cases "perform H F x")
  have "0 \<le> filter' F1" using perform_nonneg [of F x H] Cons.prems p by simp
  with Cons.IH [of F1] Cons.prems(2) p show ?case by (cases r) simp_all
qed

text \<open>
  C7. A new filter is all zero. Whatever sequence of \<^verbatim>\<open>add\<close> and \<^verbatim>\<open>union\<close> calls is made
  on a filter (a call that throws leaves it unchanged and ends the sequence), every bit
  set before is set afterwards: \<open>s AND s' = s\<close> for the state \<open>s\<close> before and \<open>s'\<close> after.
  For bit-vectors, that is non-negative states, the number of set bits does not decrease.
\<close>

theorem filter_only_grows:
  "filter' (new_BloomFilter b n) = 0
   \<and> filter' F AND filter' (snd (perform_all H F ops)) = filter' F
   \<and> (0 \<le> filter' F \<and> (\<forall>bloom. Union bloom \<in> set ops \<longrightarrow> 0 \<le> filter' bloom) \<longrightarrow>
        popcount (nat (filter' F)) \<le> popcount (nat (filter' (snd (perform_all H F ops)))))"
proof (intro conjI impI)
  show "filter' (new_BloomFilter b n) = 0" by (simp add: new_BloomFilter_def)
  show g: "filter' F AND filter' (snd (perform_all H F ops)) = filter' F"
    by (rule perform_all_grows)
  assume h: "0 \<le> filter' F \<and> (\<forall>bloom. Union bloom \<in> set ops \<longrightarrow> 0 \<le> filter' bloom)"
  then have "0 \<le> filter' (snd (perform_all H F ops))"
    by (intro perform_all_nonneg) simp_all
  with h g have "nat (filter' F) AND nat (filter' (snd (perform_all H F ops))) = nat (filter' F)"
    by (simp add: and_nat_def)
  then show "popcount (nat (filter' F)) \<le> popcount (nat (filter' (snd (perform_all H F ops))))"
    by (rule popcount_mono)
qed

theorem filter_only_grows_witness:
  "filter' (new_BloomFilter 64 4) = 0
   \<and> snd (perform_all sample_hash (new_BloomFilter 64 4)
         [Add ''alpha'', Add ''beta'', Union \<lparr>bits = 64, k = 4, filter' = 5\<rparr>])
       = \<lparr>bits = 64, k = 4, filter' = 9306690828984909829\<rparr>
   \<and> (0::int) AND 9306690828984909829 = 0
   \<and> 0 \<le> filter' (new_BloomFilter 64 4)
   \<and> 0 \<le> filter' \<lparr>bits = 64, k = 4, filter' = 5\<rparr>
   \<and> popcount (nat 0) \<le> popcount (nat 9306690828984909829)"
  using filter_only_grows [of 64 4 "new_BloomFilter 64 4" sample_hash
      "[Add ''alpha'', Add ''beta'', Union \<lparr>bits = 64, k = 4, filter' = 5\<rparr>]"]
  unfolding perform_all_sample by (simp add: new_BloomFilter_def)


lemma test_after_operations:
  assumes "1 \<le> bits F" and "1 \<le> k F"
    and "perform_all H F (Add x # ops) = (Inr (), F')"
  shows "test H F' x = Inr True"
proof -
  have "\<exists>l. itemHash H x (bits F) (k F) = Inr l"
    unfolding itemHash_def Let_def using assms(1) by (intro itemHash_loop_total) simp
  then obtain l where l: "itemHash H x (bits F) (k F) = Inr l" ..
  define F1 where "F1 = F\<lparr>filter' := filter' F OR l\<rparr>"
  have F': "F' = snd (perform_all H F1 ops)"
    using assms(3) l by (simp add: add_def F1_def)
  have "filter' F1 AND filter' F' = filter' F1"
    unfolding F' by (rule perform_all_grows)
  moreover have "l AND filter' F1 = l"
    by (simp add: F1_def) (metis and.commute or_and_self)
  ultimately have "l AND filter' F' = l" by (rule and_superset_trans [rotated])
  then have "filter' F' AND l = l" by (simp add: and.commute)
  moreover have "bits F' = bits F" "k F' = k F"
    unfolding F' using perform_all_params [of H F1 ops] by (simp_all add: F1_def)
  ultimately show ?thesis using l by (simp add: test_def)
qed

text \<open>
  C1. No false negatives: on a filter with \<^verbatim>\<open>bits >= 1\<close> and \<^verbatim>\<open>k >= 1\<close>, \<^verbatim>\<open>add(x)\<close> does not
  throw, \<^verbatim>\<open>test(x)\<close> returns true after it, and \<^verbatim>\<open>test(x)\<close> still returns true after any
  further sequence of \<^verbatim>\<open>add\<close> and \<^verbatim>\<open>union\<close> calls none of which throws.
\<close>

theorem no_false_negatives:
  assumes "1 \<le> bits F" and "1 \<le> k F"
  shows "\<exists>F1. add H F x = (Inr (), F1) \<and> test H F1 x = Inr True
           \<and> (\<forall>ops F'. perform_all H F1 ops = (Inr (), F') \<longrightarrow> test H F' x = Inr True)"
proof -
  have "\<exists>l. itemHash H x (bits F) (k F) = Inr l"
    unfolding itemHash_def Let_def using assms(1) by (intro itemHash_loop_total) simp
  then obtain l where l: "itemHash H x (bits F) (k F) = Inr l" ..
  define F1 where "F1 = F\<lparr>filter' := filter' F OR l\<rparr>"
  have a: "add H F x = (Inr (), F1)" by (simp add: add_def l F1_def)
  have "test H F' x = Inr True" if "perform_all H F1 ops = (Inr (), F')" for ops F'
    using test_after_operations [OF assms, of H x ops F'] a that by simp
  moreover from this [of "[]" F1] have "test H F1 x = Inr True" by simp
  ultimately show ?thesis using a by blast
qed

theorem no_false_negatives_witness:
  "1 \<le> bits (new_BloomFilter 64 4) \<and> 1 \<le> k (new_BloomFilter 64 4)
   \<and> add sample_hash (new_BloomFilter 64 4) ''alpha''
       = (Inr (), \<lparr>bits = 64, k = 4, filter' = 9223374235878555649\<rparr>)
   \<and> test sample_hash \<lparr>bits = 64, k = 4, filter' = 9223374235878555649\<rparr> ''alpha'' = Inr True
   \<and> perform_all sample_hash \<lparr>bits = 64, k = 4, filter' = 9223374235878555649\<rparr>
         [Add ''beta'', Union \<lparr>bits = 64, k = 4, filter' = 5\<rparr>]
       = (Inr (), \<lparr>bits = 64, k = 4, filter' = 9306690828984909829\<rparr>)
   \<and> test sample_hash \<lparr>bits = 64, k = 4, filter' = 9306690828984909829\<rparr> ''alpha'' = Inr True"
proof -
  have a: "add sample_hash (new_BloomFilter 64 4) ''alpha''
       = (Inr (), \<lparr>bits = 64, k = 4, filter' = 9223374235878555649\<rparr>)"
    by (simp add: new_BloomFilter_def add_def itemHash_sample_64_4)
  have p: "perform_all sample_hash \<lparr>bits = 64, k = 4, filter' = 9223374235878555649\<rparr>
         [Add ''beta'', Union \<lparr>bits = 64, k = 4, filter' = 5\<rparr>]
       = (Inr (), \<lparr>bits = 64, k = 4, filter' = 9306690828984909829\<rparr>)"
    by (simp add: add_def union'_def itemHash_sample_64_4)
  have "1 \<le> bits (new_BloomFilter 64 4)" "1 \<le> k (new_BloomFilter 64 4)"
    by (simp_all add: new_BloomFilter_def)
  from no_false_negatives [OF this, of sample_hash "''alpha''"]
  obtain F1 where f: "add sample_hash (new_BloomFilter 64 4) ''alpha'' = (Inr (), F1)"
    "test sample_hash F1 ''alpha'' = Inr True"
    "\<forall>ops F'. perform_all sample_hash F1 ops = (Inr (), F') \<longrightarrow>
       test sample_hash F' ''alpha'' = Inr True"
    by blast
  from f(1) a have e: "F1 = \<lparr>bits = 64, k = 4, filter' = 9223374235878555649\<rparr>" by simp
  have t1: "test sample_hash \<lparr>bits = 64, k = 4, filter' = 9223374235878555649\<rparr> ''alpha'' = Inr True"
    using f(2) unfolding e .
  have t2: "test sample_hash \<lparr>bits = 64, k = 4, filter' = 9306690828984909829\<rparr> ''alpha'' = Inr True"
    using f(3) p unfolding e by blast
  show ?thesis
    by (intro conjI a p t1 t2) (simp_all add: new_BloomFilter_def)
qed

section \<open>Serialization\<close>

lemma hexval_hexdigit_all: "\<forall>d\<in>{..<16}. hexval (hexdigit d) = Some d"
  by code_simp

lemma hexval_hexdigit: "d < 16 \<Longrightarrow> hexval (hexdigit d) = Some d"
  using hexval_hexdigit_all by simp

lemma parse_hex_append:
  "parse_hex acc (xs @ ys) = (case parse_hex acc xs of None \<Rightarrow> None | Some a \<Rightarrow> parse_hex a ys)"
  by (induction xs arbitrary: acc) (auto split: option.splits)

lemma parse_hex_hexdigits: "parse_hex 0 (hexdigits n) = Some (int n)"
proof (induction n rule: hexdigits.induct)
  case (1 n)
  show ?case
  proof (cases "n < 16")
    case True
    then show ?thesis by (subst hexdigits.simps) (simp add: hexval_hexdigit)
  next
    case False
    have "n mod 16 < 16" by simp
    then have "hexval (hexdigit (n mod 16)) = Some (n mod 16)" by (rule hexval_hexdigit)
    moreover have "16 * int (n div 16) + int (n mod 16) = int n"
      by (simp add: zdiv_int zmod_int)
    ultimately show ?thesis
      using False 1 by (subst hexdigits.simps) (simp add: parse_hex_append)
  qed
qed

lemma parse_hex_zeros: "parse_hex 0 (replicate z CHR ''0'') = Some 0"
  by (induction z) (simp_all add: hexval_def)

lemma length_hexdigits: "n < 16 ^ j \<Longrightarrow> 1 \<le> j \<Longrightarrow> length (hexdigits n) \<le> j"
proof (induction n arbitrary: j rule: hexdigits.induct)
  case (1 n)
  show ?case
  proof (cases "n < 16")
    case True
    with 1(3) show ?thesis by (subst hexdigits.simps) simp
  next
    case False
    obtain j' where j: "j = Suc j'" using 1(3) by (cases j) auto
    have "n div 16 < 16 ^ j'" using 1(2) j by (simp add: less_mult_imp_div_less mult.commute)
    moreover have "1 \<le> j'"
    proof (rule ccontr)
      assume "\<not> 1 \<le> j'"
      then have "j' = 0" by simp
      with 1(2) j False show False by simp
    qed
    ultimately have "length (hexdigits (n div 16)) \<le> j'" using "1.IH" [OF False] by simp
    then show ?thesis using False j by (subst hexdigits.simps) simp
  qed
qed

lemma lowerhex_hexdigits: "c \<in> set (hexdigits n) \<Longrightarrow> lowerhex c"
proof (induction n rule: hexdigits.induct)
  case (1 n)
  show ?case
  proof (cases "n < 16")
    case True
    with 1(2) show ?thesis by (subst (asm) hexdigits.simps) (auto simp: lowerhex_def)
  next
    case False
    have "n mod 16 < 16" by simp
    then have "lowerhex (hexdigit (n mod 16))" unfolding lowerhex_def by blast
    with 1 False show ?thesis by (subst (asm) (2) hexdigits.simps) auto
  qed
qed

lemma lowerhex_zero: "lowerhex CHR ''0''"
  unfolding lowerhex_def by (rule exI [of _ 0]) (simp add: hexdigit_def)

text \<open>Reading an even number of lower-case hexadecimal digits as bytes loses nothing.\<close>

lemma from_hex_roundtrip:
  "even (length s) \<Longrightarrow> \<forall>c\<in>set s. lowerhex c \<Longrightarrow>
   Buffer_toString_hex (Buffer_from_hex s) = s \<and> length (Buffer_from_hex s) = length s div 2"
proof (induction s rule: Buffer_from_hex.induct)
  case (1 c1 c2 cs)
  obtain h l where h: "h < 16" "c1 = hexdigit h" and l: "l < 16" "c2 = hexdigit l"
    using 1(3) by (auto simp: lowerhex_def)
  have v: "hexval c1 = Some h" "hexval c2 = Some l" using h l by (simp_all add: hexval_hexdigit)
  define B :: "8 word" where "B = of_nat (16 * h + l)"
  have "16 * h + l < 256" using h l by simp
  then have u: "unat B = 16 * h + l"
    unfolding B_def by (subst unat_of_nat) simp
  have fh: "Buffer_from_hex (c1 # c2 # cs) = B # Buffer_from_hex cs"
    unfolding B_def Buffer_from_hex.simps v by simp
  have d: "(16 * h + l) div 16 = h" "(16 * h + l) mod 16 = l" using l by simp_all
  have ih: "Buffer_toString_hex (Buffer_from_hex cs) = cs \<and> length (Buffer_from_hex cs) = length cs div 2"
    using "1.IH" [OF refl v(1) v(2)] 1(2,3) by simp
  show ?case unfolding fh using ih h l 1(2)
    by (simp add: Buffer_toString_hex_def u d)
next
  case "2_1"
  then show ?case by (simp add: Buffer_toString_hex_def)
next
  case "2_2"
  then show ?case by simp
qed

text \<open>A number that fits into \<open>w\<close> bytes is written as \<open>w\<close> bytes and read back.\<close>

lemma toBufferLE_roundtrip:
  assumes "0 \<le> n" and "n < 256 ^ w"
  shows "toBigIntLE (toBufferLE n (int w)) = Inr n \<and> length (toBufferLE n (int w)) = w"
proof (cases "w = 0")
  case True
  with assms have "n = 0" by simp
  with True show ?thesis
    by (simp add: toBufferLE_def toBigIntLE_def slice0_def Buffer_toString_hex_def)
next
  case False
  define hex where "hex = hexdigits (nat n)"
  define padded where "padded = slice0 (padStart hex (int w * 2) CHR ''0'') (int w * 2)"
  have "nat n < 256 ^ w" using assms by (simp add: nat_less_iff)
  also have "(256::nat) ^ w = 16 ^ (2 * w)" by (simp add: power_mult)
  finally have len: "length hex \<le> 2 * w"
    unfolding hex_def using False by (intro length_hexdigits) simp_all
  have pad: "padded = replicate (2 * w - length hex) CHR ''0'' @ hex"
    using len by (auto simp: padded_def padStart_def slice0_def nat_mult_distrib)
  have plen: "length padded = 2 * w" using len by (simp add: pad)
  have low: "\<forall>c\<in>set padded. lowerhex c"
    unfolding pad hex_def using lowerhex_zero lowerhex_hexdigits by auto
  have rt: "Buffer_toString_hex (Buffer_from_hex padded) = padded"
    "length (Buffer_from_hex padded) = w"
    using from_hex_roundtrip [OF _ low] plen by simp_all
  have ne: "padded \<noteq> []" using plen False by auto
  have "parse_hex 0 padded = Some n"
    unfolding pad hex_def using assms(1)
    by (simp add: parse_hex_append parse_hex_zeros parse_hex_hexdigits)
  then have "BigInt_0x padded = Inr n" using ne by (simp add: BigInt_0x_def)
  moreover have "toBufferLE n (int w) = rev (Buffer_from_hex padded)"
    using assms(1) by (simp add: toBufferLE_def toString16_def padded_def hex_def Let_def)
  ultimately show ?thesis using rt ne by (simp add: toBigIntLE_def Let_def)
qed

text \<open>
  C3. For a filter whose \<^verbatim>\<open>bits\<close> is a positive multiple of 8, whose \<^verbatim>\<open>k\<close> is at least 0
  and below \<open>2 ^ 16\<close> and whose bit-vector is a non-negative number below \<open>2 ^ bits\<close>,
  \<^verbatim>\<open>fromBuffer(F.toBuffer())\<close> is a filter with the same \<^verbatim>\<open>k\<close>, the same \<^verbatim>\<open>bits\<close>, which
  is \<^verbatim>\<open>(byteLength - 2) * 8\<close>, and the same bit-vector.
\<close>

theorem serialization_round_trip:
  assumes "0 < bits F" and "bits F mod 8 = 0"
    and "0 \<le> k F" and "k F < 2 ^ 16"
    and "0 \<le> filter' F" and "filter' F < 2 ^ nat (bits F)"
  shows "fromBuffer (toBuffer F) = Inr F
       \<and> (int (length (toBuffer F)) - 2) * 8 = bits F"
proof -
  define w where "w = nat (bits F) div 8"
  have bw: "bits F = 8 * int w" using assms(1,2) unfolding w_def by (simp add: zdiv_int) presburger
  have cw: "- ((- bits F) div 8) = int w" unfolding bw by simp
  have "(2::int) ^ nat (bits F) = 256 ^ w"
    unfolding bw by (simp add: nat_mult_distrib power_mult)
  with assms(6) have fl: "filter' F < 256 ^ w" by simp
  have kl: "k F < 256 ^ 2" using assms(4) by simp
  note K = toBufferLE_roundtrip [OF assms(3) kl]
  note L = toBufferLE_roundtrip [OF assms(5) fl]
  have t2: "take 2 (toBuffer F) = toBufferLE (k F) (int 2)"
    "drop 2 (toBuffer F) = toBufferLE (filter' F) (int w)"
    using K by (simp_all add: toBuffer_def cw)
  have len: "int (length (toBuffer F)) = 2 + int w"
    using K L by (simp add: toBuffer_def cw)
  have "fromBuffer (toBuffer F) = Inr F"
    unfolding fromBuffer_def t2 using K L
    by (simp add: len new_BloomFilter_def bw)
  then show ?thesis using len bw by simp
qed

theorem serialization_round_trip_witness:
  "0 < bits \<lparr>bits = 16, k = 3, filter' = 0x1234\<rparr>
   \<and> bits \<lparr>bits = 16, k = 3, filter' = 0x1234\<rparr> mod 8 = 0
   \<and> 0 \<le> k \<lparr>bits = 16, k = 3, filter' = 0x1234\<rparr>
   \<and> k \<lparr>bits = 16, k = 3, filter' = 0x1234\<rparr> < 2 ^ 16
   \<and> 0 \<le> filter' \<lparr>bits = 16, k = 3, filter' = 0x1234\<rparr>
   \<and> filter' \<lparr>bits = 16, k = 3, filter' = 0x1234\<rparr> < 2 ^ nat 16
   \<and> toBuffer \<lparr>bits = 16, k = 3, filter' = 0x1234\<rparr> = [3, 0, 0x34, 0x12]
   \<and> fromBuffer [3, 0, 0x34, 0x12] = Inr \<lparr>bits = 16, k = 3, filter' = 0x1234\<rparr>
   \<and> (int (length [3, 0, 0x34, 0x12 :: 8 word]) - 2) * 8 = 16"
proof -
  have b: "toBuffer \<lparr>bits = 16, k = 3, filter' = 0x1234\<rparr> = [3, 0, 0x34, 0x12]"
    by (simp add: toBuffer_def toBufferLE_def toString16_def hexdigits.simps padStart_def
        slice0_def hexdigit_def hexval_def Let_def numeral_3_eq_3)
  show ?thesis
    using serialization_round_trip [of "\<lparr>bits = 16, k = 3, filter' = 0x1234\<rparr>"]
    unfolding b by simp
qed

section \<open>Comparing filters\<close>

lemma monotone_exact_ops: "monotone_ops exact_ops"
  unfolding monotone_ops_def
proof (intro conjI allI impI)
  fix a b d
  assume "nlt (num 0) d" "\<not> nlt a b"
  then show "\<not> nlt (fdiv exact_ops a d) (fdiv exact_ops b d)"
    by (cases a; cases b; cases d)
       (auto simp: exact_ops_def num_def signed_inf_def divide_less_cancel)
next
  fix a b c
  assume "\<not> nlt a b"
  then show "\<not> nlt (fsub exact_ops c b) (fsub exact_ops c a)"
    by (cases a; cases b; cases c) (auto simp: exact_ops_def)
next
  fix a b
  assume "\<not> nlt a b"
  then show "\<not> nlt (Math_log exact_ops a) (Math_log exact_ops b)"
    by (cases a; cases b) (auto simp: exact_ops_def)
next
  fix a b c
  assume "\<not> nlt (num 0) c" "\<not> nlt a b"
  then show "\<not> nlt (fmul exact_ops c b) (fmul exact_ops c a)"
    by (cases a; cases b; cases c)
       (auto simp: exact_ops_def num_def signed_inf_def mult_less_cancel_left)
next
  fix a d
  assume "nlt (num 0) a" "nlt (num 0) d"
  then show "\<not> nlt (fdiv exact_ops a d) (num 0)"
    by (cases a; cases d) (auto simp: exact_ops_def num_def signed_inf_def divide_less_0_iff)
next
  fix a
  assume "\<not> nlt a (num 0)"
  then show "\<not> nlt (num 0) (fneg exact_ops a)"
    by (cases a) (auto simp: exact_ops_def num_def)
qed

text \<open>
  C5. \<^verbatim>\<open>A.compare(B)\<close> is Incompatible if \<^verbatim>\<open>(bits, k)\<close> differ. With equal parameters it
  is Equal if the bit-vectors are the same; otherwise Larger if the size estimate of \<open>A\<close>
  is greater than that of \<open>B\<close>, Smaller if it is less, and Inequal if the two estimates
  are equal (as numbers, so neither is NaN).
\<close>

theorem compare_semantics:
  "((bits A, k A) \<noteq> (bits B, k B) \<longrightarrow> compare fl A B = Incompatible)
   \<and> ((bits A, k A) = (bits B, k B) \<and> filter' A = filter' B \<longrightarrow> compare fl A B = Equal)
   \<and> ((bits A, k A) = (bits B, k B) \<and> filter' A \<noteq> filter' B \<longrightarrow>
        (ngt (size' fl A) (size' fl B) \<longrightarrow> compare fl A B = Larger)
      \<and> (nlt (size' fl A) (size' fl B) \<longrightarrow> compare fl A B = Smaller)
      \<and> (neq (size' fl A) (size' fl B) \<longrightarrow> compare fl A B = Inequal))"
proof -
  have asym: "nlt a b \<Longrightarrow> \<not> nlt b a" for a b
    by (cases a; cases b) auto
  have eq: "neq a b \<Longrightarrow> \<not> nlt a b \<and> \<not> nlt b a" for a b
    by (cases a; cases b) auto
  show ?thesis
    using asym [of "size' fl A" "size' fl B"] eq [of "size' fl A" "size' fl B"]
    by (auto simp: compare_def ngt_def Let_def)
qed

lemma size_exact_values:
  "size' exact_ops \<lparr>bits = 8, k = 3, filter' = 1\<rparr> = Fin (- (8 / 3) * ln (7 / 8))"
  "size' exact_ops \<lparr>bits = 8, k = 3, filter' = 2\<rparr> = Fin (- (8 / 3) * ln (7 / 8))"
  "size' exact_ops \<lparr>bits = 8, k = 3, filter' = 3\<rparr> = Fin (- (8 / 3) * ln (3 / 4))"
  by (simp_all add: size'_def exact_ops_def num_def fastpopcnt_def popcount.simps)

lemma size_exact_order:
  "nlt (Fin (- (8 / 3) * ln (7 / 8))) (Fin (- (8 / 3) * ln (3 / 4)))"
  by simp

theorem compare_semantics_witness:
  "compare exact_ops \<lparr>bits = 8, k = 3, filter' = 1\<rparr> \<lparr>bits = 16, k = 3, filter' = 1\<rparr> = Incompatible
   \<and> compare exact_ops \<lparr>bits = 8, k = 3, filter' = 1\<rparr> \<lparr>bits = 8, k = 3, filter' = 1\<rparr> = Equal
   \<and> ngt (size' exact_ops \<lparr>bits = 8, k = 3, filter' = 3\<rparr>) (size' exact_ops \<lparr>bits = 8, k = 3, filter' = 1\<rparr>)
   \<and> compare exact_ops \<lparr>bits = 8, k = 3, filter' = 3\<rparr> \<lparr>bits = 8, k = 3, filter' = 1\<rparr> = Larger
   \<and> nlt (size' exact_ops \<lparr>bits = 8, k = 3, filter' = 1\<rparr>) (size' exact_ops \<lparr>bits = 8, k = 3, filter' = 3\<rparr>)
   \<and> compare exact_ops \<lparr>bits = 8, k = 3, filter' = 1\<rparr> \<lparr>bits = 8, k = 3, filter' = 3\<rparr> = Smaller
   \<and> neq (size' exact_ops \<lparr>bits = 8, k = 3, filter' = 1\<rparr>) (size' exact_ops \<lparr>bits = 8, k = 3, filter' = 2\<rparr>)
   \<and> compare exact_ops \<lparr>bits = 8, k = 3, filter' = 1\<rparr> \<lparr>bits = 8, k = 3, filter' = 2\<rparr> = Inequal"
  using compare_semantics [of "\<lparr>bits = 8, k = 3, filter' = 1\<rparr>" "\<lparr>bits = 16, k = 3, filter' = 1\<rparr>" exact_ops]
    compare_semantics [of "\<lparr>bits = 8, k = 3, filter' = 1\<rparr>" "\<lparr>bits = 8, k = 3, filter' = 1\<rparr>" exact_ops]
    compare_semantics [of "\<lparr>bits = 8, k = 3, filter' = 3\<rparr>" "\<lparr>bits = 8, k = 3, filter' = 1\<rparr>" exact_ops]
    compare_semantics [of "\<lparr>bits = 8, k = 3, filter' = 1\<rparr>" "\<lparr>bits = 8, k = 3, filter' = 3\<rparr>" exact_ops]
    compare_semantics [of "\<lparr>bits = 8, k = 3, filter' = 1\<rparr>" "\<lparr>bits = 8, k = 3, filter' = 2\<rparr>" exact_ops]
  unfolding size_exact_values ngt_def
  using size_exact_order by simp

text \<open>
  C10. \<^verbatim>\<open>compare\<close> returns Incompatible, Equal, Larger, Smaller or Inequal, and never the
  member \<^verbatim>\<open>None\<close> of the enumeration, whose value is -1. No other method returns a
  \<^verbatim>\<open>FilterComparison\<close>.
\<close>

theorem compare_never_None:
  "compare fl A B \<in> {Incompatible, Equal, Larger, Smaller, Inequal}
   \<and> compare fl A B \<noteq> None'
   \<and> FilterComparison_value (compare fl A B) \<noteq> - 1"
  by (simp add: compare_def Let_def)

theorem compare_never_None_witness:
  "compare exact_ops \<lparr>bits = 8, k = 3, filter' = 1\<rparr> \<lparr>bits = 8, k = 3, filter' = 2\<rparr>
     \<in> {Incompatible, Equal, Larger, Smaller, Inequal}
   \<and> compare exact_ops \<lparr>bits = 8, k = 3, filter' = 1\<rparr> \<lparr>bits = 8, k = 3, filter' = 2\<rparr> \<noteq> None'
   \<and> FilterComparison_value
         (compare exact_ops \<lparr>bits = 8, k = 3, filter' = 1\<rparr> \<lparr>bits = 8, k = 3, filter' = 2\<rparr>)
       \<noteq> - 1"
  using compare_never_None [of exact_ops "\<lparr>bits = 8, k = 3, filter' = 1\<rparr>" "\<lparr>bits = 8, k = 3, filter' = 2\<rparr>"]
  by simp


section \<open>Comparing a filter with one holding more items\<close>

lemma perform_all_append:
  "perform_all H F (xs @ ys) =
     (case perform_all H F xs of
        (Inl e, F') \<Rightarrow> (Inl e, F')
      | (Inr u, F') \<Rightarrow> perform_all H F' ys)"
proof (induction xs arbitrary: F)
  case Nil
  show ?case by simp
next
  case (Cons x xs)
  obtain r F1 where p: "perform H F x = (r, F1)" by (cases "perform H F x")
  show ?case using Cons [of F1] p by (cases r) simp_all
qed

lemma size_monotone:
  assumes "monotone_ops fl" and "1 \<le> bits A" and "1 \<le> k A"
    and "bits B = bits A" and "k B = k A"
    and "fastpopcnt (bits B) (filter' B) \<le> fastpopcnt (bits A) (filter' A)"
  shows "\<not> nlt (size' fl A) (size' fl B)"
proof -
  define pA where "pA = num (fastpopcnt (bits A) (filter' A))"
  define pB where "pB = num (fastpopcnt (bits B) (filter' B))"
  define d where "d = num (bits A)"
  define c where "c = fneg fl (fdiv fl (num (bits A)) (num (k A)))"
  note m = assms(1) [unfolded monotone_ops_def]
  have d0: "nlt (num 0) d" using assms(2) by (simp add: d_def num_def)
  have k0: "nlt (num 0) (num (k A))" using assms(3) by (simp add: num_def)
  have "\<not> nlt pA pB" using assms(6) by (simp add: pA_def pB_def num_def)
  with m d0 have "\<not> nlt (fdiv fl pA d) (fdiv fl pB d)" by blast
  with m have "\<not> nlt (fsub fl (num 1) (fdiv fl pB d)) (fsub fl (num 1) (fdiv fl pA d))" by blast
  with m have l: "\<not> nlt (Math_log fl (fsub fl (num 1) (fdiv fl pB d)))
                        (Math_log fl (fsub fl (num 1) (fdiv fl pA d)))" by blast
  from m d0 k0 have "\<not> nlt (fdiv fl d (num (k A))) (num 0)" by blast
  with m have "\<not> nlt (num 0) c" unfolding c_def d_def by blast
  with m l have "\<not> nlt (fmul fl c (Math_log fl (fsub fl (num 1) (fdiv fl pA d))))
                        (fmul fl c (Math_log fl (fsub fl (num 1) (fdiv fl pB d))))" by blast
  then show ?thesis
    by (simp add: size'_def c_def d_def pA_def pB_def assms(4,5))
qed

lemma compare_bit_superset:
  assumes "monotone_ops fl" and "1 \<le> bits A" and "1 \<le> k A"
    and "bits B = bits A" and "k B = k A"
    and "0 \<le> filter' A" and "0 \<le> filter' B"
    and "filter' B AND filter' A = filter' B"
  shows "compare fl A B \<in> {Equal, Larger, Inequal}"
proof -
  have "nat (filter' B) AND nat (filter' A) = nat (filter' B)"
    using assms(6-8) by (simp add: and_nat_def)
  then have "popcount (nat (filter' B)) \<le> popcount (nat (filter' A))"
    by (rule popcount_mono)
  then have "fastpopcnt (bits B) (filter' B) \<le> fastpopcnt (bits A) (filter' A)"
    by (simp add: fastpopcnt_def)
  then have "\<not> nlt (size' fl A) (size' fl B)"
    by (rule size_monotone [OF assms(1-5)])
  then show ?thesis using assms(4,5) by (simp add: compare_def Let_def)
qed

lemma itemHash_loop_single_bit: "itemHash_loop 1 n i delta a 1 = Inr 1"
proof (induction "1::int" n i delta a "1::int" rule: itemHash_loop.induct)
  case (1 n i delta a)
  show ?case
  proof (cases "i < n")
    case True
    have s: "shl 1 (a smod 1) = 1" by (simp add: shl_def signed_modulo_int_def)
    show ?thesis
      using True "1.hyps" [OF True refl _ refl] 
      by (subst itemHash_loop.simps) (simp add: Let_def s)
  next
    case False
    then show ?thesis by (subst itemHash_loop.simps) simp
  qed
qed

lemma itemHash_single_bit: "1 \<le> n \<Longrightarrow> itemHash H v 1 n = Inr 1"
  unfolding itemHash_def Let_def
  by (subst itemHash_loop.simps)
    (simp add: Let_def shl_def signed_modulo_int_def itemHash_loop_single_bit)

lemma mask64_mod8: "(x AND mask64) mod 8 = x mod 8"
proof -
  have "x AND mask64 = x mod 18446744073709551616"
    by (simp only: mask64_take_bit take_bit_eq_mod) simp
  moreover have "(x mod 18446744073709551616) mod 8 = x mod 8"
    by (rule mod_mod_cancel) (rule dvdI [of _ _ 2305843009213693952], simp)
  ultimately show ?thesis by (simp only:)
qed

lemma delta_mod8: "(delta mod 8 + i) mod 8 = (delta + i) mod (8::int)"
  by (simp add: mod_add_left_eq)

lemma step_mod8:
  "((a mod 8 + (delta mod 8 + i)) AND mask64) mod 8 = ((a + (delta + i)) AND mask64) mod 8"
  unfolding mask64_mod8 by (metis mod_add_eq mod_add_left_eq)

lemma itemHash_loop_mod8:
  "0 \<le> a \<Longrightarrow> 0 \<le> i \<Longrightarrow>
   itemHash_loop 8 n i delta a out = itemHash_loop 8 n i (delta mod 8) (a mod 8) out"
proof (induction "nat (n - i)" arbitrary: i delta a out)
  case 0
  then have "\<not> i < n" by simp
  then show ?case by (subst (1 2) itemHash_loop.simps) simp
next
  case (Suc j)
  then have True: "i < n" and j: "j = nat (n - (i + 1))" by simp_all
  define a1 where "a1 = (a + (delta + i)) AND mask64"
  define a2 where "a2 = (a mod 8 + (delta mod 8 + i)) AND mask64"
  define out1 where "out1 = out OR shl 1 (a mod 8)"
  have r: "a2 mod 8 = a1 mod 8" unfolding a1_def a2_def by (rule step_mod8)
  have n1: "0 \<le> a1" "0 \<le> a2" unfolding a1_def a2_def by (rule mask64_range)+
  have i1: "0 \<le> i + 1" using Suc.prems by simp
  have s: "a smod 8 = a mod 8" "(a mod 8) smod 8 = a mod 8"
    using Suc.prems by (simp_all add: smod_mod_positive)
  have "itemHash_loop 8 n i delta a out = itemHash_loop 8 n (i + 1) (delta + i) a1 out1"
    using True by (subst itemHash_loop.simps) (simp add: Let_def a1_def out1_def s)
  also have "\<dots> = itemHash_loop 8 n (i + 1) ((delta + i) mod 8) (a1 mod 8) out1"
    by (rule Suc.hyps(1) [OF j n1(1) i1])
  also have "\<dots> = itemHash_loop 8 n (i + 1) ((delta mod 8 + i) mod 8) (a2 mod 8) out1"
    by (simp only: r delta_mod8)
  also have "\<dots> = itemHash_loop 8 n (i + 1) (delta mod 8 + i) a2 out1"
    by (rule Suc.hyps(1) [OF j n1(2) i1, symmetric])
  also have "\<dots> = itemHash_loop 8 n i (delta mod 8) (a mod 8) out"
    using True
    by (subst (2) itemHash_loop.simps) (simp add: Let_def a2_def out1_def s)
  finally show ?case .
qed

lemma smod_8_small: "(0::int) smod 8 = 0" "(1::int) smod 8 = 1"
  by (simp_all add: signed_modulo_int_def)

lemma itemHash_loop_saturated_values:
  "itemHash_loop 8 15 0 1 0 0 = Inr 255"
  "itemHash_loop 8 15 0 1 1 0 = Inr 255"
  "itemHash_loop 8 15 0 1 2 0 = Inr 255"
  "itemHash_loop 8 15 0 1 3 0 = Inr 255"
  "itemHash_loop 8 15 0 1 4 0 = Inr 255"
  "itemHash_loop 8 15 0 1 5 0 = Inr 255"
  "itemHash_loop 8 15 0 1 6 0 = Inr 255"
  "itemHash_loop 8 15 0 1 7 0 = Inr 255"
  "itemHash_loop 8 15 0 3 0 0 = Inr 255"
  "itemHash_loop 8 15 0 3 1 0 = Inr 255"
  "itemHash_loop 8 15 0 3 2 0 = Inr 255"
  "itemHash_loop 8 15 0 3 3 0 = Inr 255"
  "itemHash_loop 8 15 0 3 4 0 = Inr 255"
  "itemHash_loop 8 15 0 3 5 0 = Inr 255"
  "itemHash_loop 8 15 0 3 6 0 = Inr 255"
  "itemHash_loop 8 15 0 3 7 0 = Inr 255"
  "itemHash_loop 8 15 0 5 0 0 = Inr 255"
  "itemHash_loop 8 15 0 5 1 0 = Inr 255"
  "itemHash_loop 8 15 0 5 2 0 = Inr 255"
  "itemHash_loop 8 15 0 5 3 0 = Inr 255"
  "itemHash_loop 8 15 0 5 4 0 = Inr 255"
  "itemHash_loop 8 15 0 5 5 0 = Inr 255"
  "itemHash_loop 8 15 0 5 6 0 = Inr 255"
  "itemHash_loop 8 15 0 5 7 0 = Inr 255"
  "itemHash_loop 8 15 0 7 0 0 = Inr 255"
  "itemHash_loop 8 15 0 7 1 0 = Inr 255"
  "itemHash_loop 8 15 0 7 2 0 = Inr 255"
  "itemHash_loop 8 15 0 7 3 0 = Inr 255"
  "itemHash_loop 8 15 0 7 4 0 = Inr 255"
  "itemHash_loop 8 15 0 7 5 0 = Inr 255"
  "itemHash_loop 8 15 0 7 6 0 = Inr 255"
  "itemHash_loop 8 15 0 7 7 0 = Inr 255"
  by (simp_all add: itemHash_loop.simps Let_def shl_def mask64_def smod_8_small)

lemma itemHash_saturated: "itemHash H v 8 15 = Inr 255"
proof -
  define a where "a = (if H v < 0 then H v * (- 1) else H v) XOR 0x6740bca37be0516d"
  define delta where "delta = Rotl64 a 17 OR 1"
  have a0: "0 \<le> a" by (simp add: a_def)
  have "odd delta" unfolding delta_def by (simp add: even_or_iff)
  then have d: "delta mod 8 = 1 \<or> delta mod 8 = 3 \<or> delta mod 8 = 5 \<or> delta mod 8 = 7"
    by presburger
  have r: "a mod 8 = 0 \<or> a mod 8 = 1 \<or> a mod 8 = 2 \<or> a mod 8 = 3
         \<or> a mod 8 = 4 \<or> a mod 8 = 5 \<or> a mod 8 = 6 \<or> a mod 8 = 7"
    by presburger
  have "itemHash H v 8 15 = itemHash_loop 8 15 0 delta a 0"
    by (simp add: itemHash_def Let_def a_def delta_def)
  also have "\<dots> = itemHash_loop 8 15 0 (delta mod 8) (a mod 8) 0"
    by (rule itemHash_loop_mod8 [OF a0]) simp
  also have "\<dots> = Inr 255"
    using d r by (elim disjE) (simp_all only: itemHash_loop_saturated_values)
  finally show ?thesis .
qed

text \<open>
  C9, as amended. Let the operations on numbers preserve order (\<open>monotone_ops\<close>: division
  by a positive number, subtraction from a number, the logarithm and multiplication by a
  number that is not positive are monotone, a quotient of positive numbers is not negative
  and the negation of a number that is not negative is not positive; a NaN result is
  allowed everywhere). Let \<^verbatim>\<open>bits >= 1\<close> and \<^verbatim>\<open>k >= 1\<close>, let \<open>B\<close> be a new filter to which
  the items \<open>xs\<close> were added and \<open>A\<close> a new filter with the same parameters to which \<open>xs\<close>
  and then the items \<open>ys\<close> were added. Then \<^verbatim>\<open>A.compare(B)\<close> is Equal, Larger or Inequal,
  and so neither Smaller nor Incompatible. Equal is returned when the further items set
  no new bit.
\<close>

theorem compare_superset:
  assumes "monotone_ops fl" and "1 \<le> b" and "1 \<le> n"
    and "perform_all H (new_BloomFilter b n) (map Add xs) = (Inr (), B)"
    and "perform_all H (new_BloomFilter b n) (map Add (xs @ ys)) = (Inr (), A)"
  shows "compare fl A B \<in> {Equal, Larger, Inequal}"
proof -
  have A: "A = snd (perform_all H B (map Add ys))"
    using assms(4,5) by (simp add: perform_all_append)
  have B: "B = snd (perform_all H (new_BloomFilter b n) (map Add xs))"
    using assms(4) by simp
  have pB: "bits B = b" "k B = n"
    unfolding B using perform_all_params [of H "new_BloomFilter b n" "map Add xs"]
    by (simp_all add: new_BloomFilter_def)
  have pA: "bits A = b" "k A = n"
    unfolding A using perform_all_params [of H B "map Add ys"] pB by simp_all
  have nB: "0 \<le> filter' B"
    unfolding B by (rule perform_all_nonneg) (auto simp: new_BloomFilter_def)
  have nA: "0 \<le> filter' A"
    unfolding A using nB by (rule perform_all_nonneg) auto
  have sub: "filter' B AND filter' A = filter' B"
    unfolding A by (rule perform_all_grows)
  show ?thesis
    by (rule compare_bit_superset [OF assms(1)]) (simp_all add: pA pB nA nB sub assms(2,3))
qed

lemma perform_all_sample_adds:
  "perform_all sample_hash (new_BloomFilter 64 4) (map Add [''alpha''])
   = (Inr (), \<lparr>bits = 64, k = 4, filter' = 9223374235878555649\<rparr>)"
  "perform_all sample_hash (new_BloomFilter 64 4) (map Add ([''alpha''] @ [''beta'']))
   = (Inr (), \<lparr>bits = 64, k = 4, filter' = 9306690828984909825\<rparr>)"
  by (simp_all add: new_BloomFilter_def add_def itemHash_sample_64_4)

theorem compare_superset_witness:
  "monotone_ops exact_ops \<and> (1::int) \<le> 64 \<and> (1::int) \<le> 4
   \<and> perform_all sample_hash (new_BloomFilter 64 4) (map Add [''alpha''])
       = (Inr (), \<lparr>bits = 64, k = 4, filter' = 9223374235878555649\<rparr>)
   \<and> perform_all sample_hash (new_BloomFilter 64 4) (map Add ([''alpha''] @ [''beta'']))
       = (Inr (), \<lparr>bits = 64, k = 4, filter' = 9306690828984909825\<rparr>)
   \<and> compare exact_ops \<lparr>bits = 64, k = 4, filter' = 9306690828984909825\<rparr>
         \<lparr>bits = 64, k = 4, filter' = 9223374235878555649\<rparr> \<in> {Equal, Larger, Inequal}"
proof -
  have c: "compare exact_ops \<lparr>bits = 64, k = 4, filter' = 9306690828984909825\<rparr>
         \<lparr>bits = 64, k = 4, filter' = 9223374235878555649\<rparr> \<in> {Equal, Larger, Inequal}"
    by (rule compare_superset [OF monotone_exact_ops _ _ perform_all_sample_adds]) simp_all
  show ?thesis
    by (intro conjI monotone_exact_ops perform_all_sample_adds c) simp_all
qed

text \<open>
  The result Equal for a strict superset of items: with \<^verbatim>\<open>bits = 8\<close> and \<^verbatim>\<open>k = 15\<close> every
  item sets all eight bits, and with \<^verbatim>\<open>bits = 1\<close> and \<^verbatim>\<open>k = 1\<close> every item sets the only
  bit, whatever the hash function is (\<open>itemHash_saturated\<close>, \<open>itemHash_single_bit\<close>). A
  filter holding \<^verbatim>\<open>alpha\<close> and \<^verbatim>\<open>beta\<close> then has the bit-vector of one holding \<^verbatim>\<open>alpha\<close>,
  and \<^verbatim>\<open>compare\<close> returns Equal, which is neither Larger nor Inequal.
\<close>

theorem compare_superset_counterexample:
  "''beta'' \<notin> set [''alpha'']
   \<and> perform_all sample_hash (new_BloomFilter 8 15) (map Add [''alpha''])
       = (Inr (), \<lparr>bits = 8, k = 15, filter' = 255\<rparr>)
   \<and> perform_all sample_hash (new_BloomFilter 8 15) (map Add ([''alpha''] @ [''beta'']))
       = (Inr (), \<lparr>bits = 8, k = 15, filter' = 255\<rparr>)
   \<and> compare exact_ops \<lparr>bits = 8, k = 15, filter' = 255\<rparr> \<lparr>bits = 8, k = 15, filter' = 255\<rparr>
       = Equal
   \<and> compare exact_ops \<lparr>bits = 8, k = 15, filter' = 255\<rparr> \<lparr>bits = 8, k = 15, filter' = 255\<rparr>
       \<notin> {Larger, Inequal}
   \<and> perform_all sample_hash (new_BloomFilter 1 1) (map Add [''alpha''])
       = (Inr (), \<lparr>bits = 1, k = 1, filter' = 1\<rparr>)
   \<and> perform_all sample_hash (new_BloomFilter 1 1) (map Add ([''alpha''] @ [''beta'']))
       = (Inr (), \<lparr>bits = 1, k = 1, filter' = 1\<rparr>)
   \<and> compare exact_ops \<lparr>bits = 1, k = 1, filter' = 1\<rparr> \<lparr>bits = 1, k = 1, filter' = 1\<rparr> = Equal
   \<and> compare exact_ops \<lparr>bits = 1, k = 1, filter' = 1\<rparr> \<lparr>bits = 1, k = 1, filter' = 1\<rparr>
       \<notin> {Larger, Inequal}"
  by (simp add: new_BloomFilter_def add_def itemHash_saturated itemHash_single_bit compare_def)

section \<open>The search for optimal parameters\<close>













end
